theory Spec2Isabelle
  imports Complex_Main "HOL-Library.Log_Nat"
begin

section \<open>JavaScript numbers\<close>

text \<open>
  The percentages of \<^verbatim>\<open>coverageservice.ts\<close> are JavaScript numbers: IEEE 754 binary64
  values with \<^verbatim>\<open>NaN\<close> and the two infinities. A finite number is represented by the
  rational it denotes (the sign of zero is not represented: every zero below is \<open>+0\<close>).
  \<^verbatim>\<open>undefined\<close> is \<open>None\<close> of \<open>jsnum option\<close>.
\<close>

datatype jsnum = Fin rat | NaN | PInf | NInf

text \<open>\<^verbatim>\<open>Number.isFinite(v)\<close>: false for \<^verbatim>\<open>undefined\<close>, \<^verbatim>\<open>NaN\<close> and the infinities.\<close>

fun isFinite :: "jsnum option \<Rightarrow> bool" where
  "isFinite (Some (Fin x)) = True"
| "isFinite v = False"

text \<open>
  Rounding of an exact result to binary64, round to nearest, ties to even: the result
  has a 53-bit significand \<open>m\<close> and an exponent \<open>e\<close> no smaller than \<open>-1074\<close> (below
  that the numbers are subnormal), and a result of magnitude \<open>2 ^ 1024\<close> or more is
  an infinity. \<open>log2floor x\<close> is the integer part of the binary logarithm of a
  positive rational.
\<close>

definition overflow_threshold :: rat where
  "overflow_threshold = 2 ^ 1024"

definition log2floor :: "rat \<Rightarrow> int" where
  "log2floor x = (if 1 \<le> x then bitlen \<lfloor>x\<rfloor> - 1 else - bitlen (\<lceil>1 / x\<rceil> - 1))"

definition pow2 :: "int \<Rightarrow> rat" where
  "pow2 e = (if 0 \<le> e then 2 ^ nat e else 1 / 2 ^ nat (- e))"

definition round_half_even :: "rat \<Rightarrow> int" where
  "round_half_even x =
     (let f = \<lfloor>x\<rfloor>; d = x - of_int f
      in if d < 1 / 2 then f else if 1 / 2 < d then f + 1 else if even f then f else f + 1)"

definition to_double :: "rat \<Rightarrow> jsnum" where
  "to_double x =
     (if x = 0 then Fin 0
      else let a = \<bar>x\<bar>;
               e = max (log2floor a - 52) (- 1074);
               m = round_half_even (a / pow2 e);
               y = of_int m * pow2 e
           in if overflow_threshold \<le> y then (if 0 < x then PInf else NInf)
              else Fin (if 0 < x then y else - y))"

text \<open>
  The operators the source applies to numbers. Addition is exact: the source only adds
  line and branch counts, and binary64 addition of integers is exact while the sum is
  below \<open>2 ^ 53\<close>. Division and multiplication round their exact result.
\<close>

fun js_add :: "jsnum \<Rightarrow> jsnum \<Rightarrow> jsnum" where
  "js_add (Fin a) (Fin b) = Fin (a + b)"
| "js_add NaN _ = NaN"
| "js_add _ NaN = NaN"
| "js_add PInf NInf = NaN"
| "js_add NInf PInf = NaN"
| "js_add PInf _ = PInf"
| "js_add _ PInf = PInf"
| "js_add NInf _ = NInf"
| "js_add _ NInf = NInf"

fun js_div :: "jsnum \<Rightarrow> jsnum \<Rightarrow> jsnum" where
  "js_div (Fin a) (Fin b) =
     (if b = 0 then (if a = 0 then NaN else if 0 < a then PInf else NInf)
      else to_double (a / b))"
| "js_div NaN _ = NaN"
| "js_div _ NaN = NaN"
| "js_div (Fin a) _ = Fin 0"
| "js_div PInf (Fin b) = (if 0 \<le> b then PInf else NInf)"
| "js_div NInf (Fin b) = (if 0 \<le> b then NInf else PInf)"
| "js_div _ _ = NaN"

fun js_mul :: "jsnum \<Rightarrow> jsnum \<Rightarrow> jsnum" where
  "js_mul (Fin a) (Fin b) = to_double (a * b)"
| "js_mul NaN _ = NaN"
| "js_mul _ NaN = NaN"
| "js_mul PInf (Fin b) = (if b = 0 then NaN else if 0 < b then PInf else NInf)"
| "js_mul NInf (Fin b) = (if b = 0 then NaN else if 0 < b then NInf else PInf)"
| "js_mul (Fin a) PInf = (if a = 0 then NaN else if 0 < a then PInf else NInf)"
| "js_mul (Fin a) NInf = (if a = 0 then NaN else if 0 < a then NInf else PInf)"
| "js_mul PInf PInf = PInf"
| "js_mul NInf NInf = PInf"
| "js_mul _ _ = NInf"

text \<open>\<^verbatim>\<open>Math.round\<close>: the nearest integer, a tie going up.\<close>

fun Math_round :: "jsnum \<Rightarrow> jsnum" where
  "Math_round (Fin x) = Fin (of_int \<lfloor>x + 1 / 2\<rfloor>)"
| "Math_round v = v"

text \<open>A value that is a count or \<^verbatim>\<open>undefined\<close>, read as a number.\<close>

fun to_number :: "nat option \<Rightarrow> jsnum" where
  "to_number None = NaN"
| "to_number (Some n) = Fin (of_nat n)"

section \<open>The status bar item (StatusBarToggler)\<close>

text \<open>
  The class keeps four fields and a \<^verbatim>\<open>StatusBarItem\<close> of the editor, of which it writes
  the text (read back by the getter \<^verbatim>\<open>statusText\<close>), the command, the tooltip and the
  background colour. \<^verbatim>\<open>isActive\<close> is \<^verbatim>\<open>boolean | undefined\<close>.
\<close>

record StatusBarToggler =
  isActive :: "bool option"
  isLoading :: bool
  lineCoverage :: "string option"
  isWarn :: bool
  statusText :: string
  command :: string
  tooltip :: string
  backgroundColor :: "string option"

definition coverageText :: string where
  "coverageText = ''Cov''"

definition loadingText :: string where
  "loadingText = ''$(loading~spin)'' @ '' '' @ coverageText"

definition idleIcon :: string where
  "idleIcon = ''$(circle-large-outline)''"

definition watchCommand :: string where
  "watchCommand = ''coverage-gutters.watchCoverageAndVisibleEditors''"

definition watchText :: string where
  "watchText = idleIcon @ '' '' @ ''Watch''"

definition watchToolTip :: string where
  "watchToolTip = ''Coverage Gutters: Click to watch workspace.''"

definition removeCommand :: string where
  "removeCommand = ''coverage-gutters.removeWatch''"

definition removeWatchToolTip :: string where
  "removeWatchToolTip = ''Coverage Gutters: Click to remove watch from workspace.''"

text \<open>The state the constructor leaves.\<close>

definition new_StatusBarToggler :: StatusBarToggler where
  "new_StatusBarToggler =
     \<lparr>isActive = None, isLoading = False, lineCoverage = None, isWarn = False,
      statusText = watchText, command = watchCommand, tooltip = watchToolTip,
      backgroundColor = None\<rparr>"

text \<open>\<^verbatim>\<open>this.lineCoverage || "No"\<close>: \<^verbatim>\<open>undefined\<close> and the empty string are falsy.\<close>

definition getStatusBarText :: "StatusBarToggler \<Rightarrow> string" where
  "getStatusBarText sb =
     (if isLoading sb then loadingText
      else if isActive sb = Some True then
        idleIcon @ '' '' @
        (case lineCoverage sb of None \<Rightarrow> ''No'' | Some t \<Rightarrow> if t = [] then ''No'' else t) @
        '' '' @ coverageText
      else watchText)"

definition update :: "StatusBarToggler \<Rightarrow> StatusBarToggler" where
  "update sb =
     (let sb1 = sb\<lparr>statusText := getStatusBarText sb\<rparr>;
          sb2 = (if isActive sb1 = Some True
                 then sb1\<lparr>command := removeCommand, tooltip := removeWatchToolTip\<rparr>
                 else sb1\<lparr>command := watchCommand, tooltip := watchToolTip\<rparr>);
          bgColor = (if isWarn sb2 \<and> isActive sb2 = Some True
                     then Some ''statusBarItem.errorBackground'' else None)
      in sb2\<lparr>backgroundColor := bgColor\<rparr>)"

definition toggle :: "bool \<Rightarrow> StatusBarToggler \<Rightarrow> StatusBarToggler" where
  "toggle active sb = update (sb\<lparr>isActive := Some active\<rparr>)"

text \<open>\<^verbatim>\<open>setLoading(loading = !this.isLoading)\<close>: the argument is optional.\<close>

definition setLoading :: "bool option \<Rightarrow> StatusBarToggler \<Rightarrow> StatusBarToggler" where
  "setLoading arg sb =
     (let l = (case arg of None \<Rightarrow> \<not> isLoading sb | Some b \<Rightarrow> b)
      in update (sb\<lparr>isLoading := l\<rparr>))"

text \<open>
  \<^verbatim>\<open>setCoverage\<close>. The template strings turn numbers into text with the language's
  own conversion, here the parameter \<open>str\<close>. The function reads its arguments only
  where \<^verbatim>\<open>Number.isFinite\<close> holds of them; \<open>the_number\<close> is the rational that such an
  argument denotes, and \<^verbatim>\<open>(x||0) < 60\<close> is \<^verbatim>\<open>x < 60\<close> there.
\<close>

fun the_number :: "jsnum option \<Rightarrow> rat" where
  "the_number (Some (Fin x)) = x"
| "the_number v = 0"

definition setCoverage ::
  "(rat \<Rightarrow> string) \<Rightarrow> jsnum option \<Rightarrow> jsnum option \<Rightarrow> jsnum option \<Rightarrow> jsnum option \<Rightarrow>
     StatusBarToggler \<Rightarrow> StatusBarToggler" where
  "setCoverage str linePercentage totalLinePercentage branchPercentage totalBranchPercentage sb =
     (let sb0 = sb\<lparr>isWarn := False\<rparr>;
          l = str (the_number linePercentage); tl = str (the_number totalLinePercentage);
          b = str (the_number branchPercentage); tb = str (the_number totalBranchPercentage);
          sb1 =
            (if isFinite linePercentage then
               (if isFinite totalLinePercentage then
                  (if isFinite branchPercentage \<and> isFinite totalBranchPercentage then
                     (if the_number totalLinePercentage < 60 \<or> the_number totalBranchPercentage < 40
                      then sb0\<lparr>isWarn := True\<rparr> else sb0)
                     \<lparr>lineCoverage := Some (l @ '','' @ b @ ''%/'' @ tl @ '','' @ tb @ ''%'')\<rparr>
                   else sb0\<lparr>lineCoverage := Some (l @ ''%/'' @ tl @ ''%'')\<rparr>)
                else sb0\<lparr>lineCoverage := Some (l @ ''%'')\<rparr>)
             else sb0\<lparr>lineCoverage := None\<rparr>)
      in update sb1)"

text \<open>
  The conversion of a number to text, for the integers that \<^verbatim>\<open>Math.round\<close> yields
  here (below \<open>10 ^ 21\<close>, where JavaScript prints every digit).
\<close>

fun digits :: "nat \<Rightarrow> string" where
  "digits n = (if n < 10 then [''0123456789'' ! n] else digits (n div 10) @ [''0123456789'' ! (n mod 10)])"

declare digits.simps [simp del]

definition Number_toString :: "rat \<Rightarrow> string" where
  "Number_toString x = (if x < 0 then ''-'' @ digits (nat (- \<lfloor>x\<rfloor>)) else digits (nat \<lfloor>x\<rfloor>))"

section \<open>Sections, the cache and the collaborators\<close>

text \<open>
  A \<^verbatim>\<open>Section\<close> (package \<^verbatim>\<open>lcov-parse\<close>) carries hit and found counts for lines and
  for branches. The source reads both through optional chaining
  (\<^verbatim>\<open>it?.lines?.hit\<close>, \<^verbatim>\<open>it?.branches?.hit\<close>), so either part may be missing. The
  cache is a \<^verbatim>\<open>Map<string, Section>\<close>, kept in insertion order, the order in which
  \<^verbatim>\<open>forEach\<close> visits it.
\<close>

record counts =
  hit :: nat
  found :: nat

record Section =
  lines :: "counts option"
  branches :: "counts option"

type_synonym cache = "(string \<times> Section) list"

text \<open>A value thrown by a collaborator.\<close>

datatype exn = Thrown string

text \<open>
  The collaborators, whose code is in other files of the repository: the files loader,
  the parser, the renderer and the section finder, and the language's conversion of a
  number to text. The loader reads the file system, of type \<open>'fs\<close>; an editor is of
  type \<open>'e\<close>. A call that throws (or whose promise is rejected) returns \<open>Inl\<close>.
\<close>

record ('e, 'fs) collaborators =
  findCoverageFiles :: "'fs \<Rightarrow> exn + string list"
  loadDataFiles :: "'fs \<Rightarrow> string list \<Rightarrow> exn + (string \<times> string) list"
  filesToSections :: "(string \<times> string) list \<Rightarrow> exn + cache"
  renderCoverage :: "cache \<Rightarrow> 'e list \<Rightarrow> exn option"
  findSectionsForEditor :: "'e \<Rightarrow> cache \<Rightarrow> exn + Section list"
  toString :: "rat \<Rightarrow> string"

text \<open>\<^verbatim>\<open>window.visibleTextEditors\<close> and \<^verbatim>\<open>window.activeTextEditor\<close>.\<close>

record 'e window =
  visibleTextEditors :: "'e list"
  activeTextEditor :: "'e option"

section \<open>The percentages of the status bar (setStatusBarCoverage)\<close>

text \<open>\<^verbatim>\<open>v || d\<close> on a count or \<^verbatim>\<open>undefined\<close>: \<^verbatim>\<open>undefined\<close> and \<open>0\<close> are falsy.\<close>

fun or_default :: "nat option \<Rightarrow> nat \<Rightarrow> nat" where
  "or_default None d = d"
| "or_default (Some n) d = (if n = 0 then d else n)"

text \<open>The four running totals and the body of the \<^verbatim>\<open>forEach\<close>.\<close>

record totals =
  total_lines_hit :: jsnum
  total_lines_found :: jsnum
  total_branches_hit :: jsnum
  total_branches_found :: jsnum

definition totals0 :: totals where
  "totals0 = \<lparr>total_lines_hit = Fin 0, total_lines_found = Fin 0,
               total_branches_hit = Fin 0, total_branches_found = Fin 0\<rparr>"

definition forEach_body :: "totals \<Rightarrow> Section \<Rightarrow> totals" where
  "forEach_body t it =
     \<lparr>total_lines_hit = js_add (total_lines_hit t) (to_number (map_option hit (lines it))),
      total_lines_found = js_add (total_lines_found t) (to_number (map_option found (lines it))),
      total_branches_hit =
        js_add (total_branches_hit t) (Fin (of_nat (or_default (map_option hit (branches it)) 0))),
      total_branches_found =
        js_add (total_branches_found t) (Fin (of_nat (or_default (map_option found (branches it)) 0)))\<rparr>"

definition sum_sections :: "cache \<Rightarrow> totals" where
  "sum_sections sections = foldl forEach_body totals0 (map snd sections)"

text \<open>\<^verbatim>\<open>Math.round((a / b) * 100)\<close>.\<close>

definition percent :: "jsnum \<Rightarrow> jsnum \<Rightarrow> jsnum" where
  "percent a b = Math_round (js_mul (js_div a b) (Fin 100))"

text \<open>The four constants the function passes to \<^verbatim>\<open>setCoverage\<close>, from the first
  section the finder returned (\<^verbatim>\<open>undefined\<close> when it returned none) and the cache.\<close>

definition coverage :: "Section option \<Rightarrow> jsnum" where
  "coverage fileCoverage =
     (let covered = to_number (map_option hit (Option.bind fileCoverage lines));
          total = to_number (map_option found (Option.bind fileCoverage lines))
      in percent covered total)"

definition b_coverage :: "Section option \<Rightarrow> jsnum" where
  "b_coverage fileCoverage =
     (let b_covered = or_default (map_option hit (Option.bind fileCoverage branches)) 0;
          b_total = or_default (map_option found (Option.bind fileCoverage branches)) 1
      in percent (Fin (of_nat b_covered)) (Fin (of_nat b_total)))"

definition total_coverage :: "cache \<Rightarrow> jsnum" where
  "total_coverage sections =
     (let t = sum_sections sections
      in if total_lines_found t = Fin 0 then Fin 0
         else percent (total_lines_hit t) (total_lines_found t))"

definition b_total_coverage :: "cache \<Rightarrow> jsnum" where
  "b_total_coverage sections =
     (let t = sum_sections sections
      in if total_branches_found t = Fin 0 then Fin 0
         else percent (total_branches_hit t) (total_branches_found t))"

text \<open>
  \<^verbatim>\<open>setStatusBarCoverage(sections, textEditor)\<close>, acting on the status bar. The only call
  of the \<^verbatim>\<open>try\<close> block that can throw is the finder's; the \<^verbatim>\<open>catch\<close> answers it with
  \<^verbatim>\<open>setCoverage(undefined)\<close>.
\<close>

definition setStatusBarCoverage ::
  "('e, 'fs) collaborators \<Rightarrow> cache \<Rightarrow> 'e option \<Rightarrow> StatusBarToggler \<Rightarrow> StatusBarToggler" where
  "setStatusBarCoverage k sections textEditor sb =
     (case textEditor of
        None \<Rightarrow> setCoverage (toString k) None None None None sb
      | Some ed \<Rightarrow>
          (case findSectionsForEditor k ed sections of
             Inl e \<Rightarrow> setCoverage (toString k) None None None None sb
           | Inr found_sections \<Rightarrow>
               (let fileCoverage = (case found_sections of [] \<Rightarrow> None | x # _ \<Rightarrow> Some x)
                in setCoverage (toString k)
                     (Some (coverage fileCoverage)) (Some (total_coverage sections))
                     (Some (b_coverage fileCoverage)) (Some (b_total_coverage sections)) sb)))"

section \<open>The coverage service (CoverageService)\<close>

text \<open>
  The service state is not a field: \<^verbatim>\<open>updateServiceState\<close> writes the state's name to the
  output channel, and that line is all that records it. Every line of the channel starts
  with the value of \<^verbatim>\<open>Date.now()\<close>, which the model leaves out. \<open>rendered\<close> lists the
  calls the renderer received, in order.
\<close>

datatype Status = ready | initializing | loading | rendering | error

datatype log_line =
    StateLine Status
  | LoadingFiles nat
  | FileList "string list"
  | LoadedDataFiles nat
  | CachingCoverages nat

record 'e CoverageService =
  statusBar :: StatusBarToggler
  outputChannel :: "log_line list"
  rendered :: "(cache \<times> 'e list) list"
  isCoverageDisplayed :: bool
  cache :: cache

definition appendLine :: "log_line \<Rightarrow> 'e CoverageService \<Rightarrow> 'e CoverageService" where
  "appendLine l s = s\<lparr>outputChannel := outputChannel s @ [l]\<rparr>"

definition updateServiceState :: "Status \<Rightarrow> 'e CoverageService \<Rightarrow> 'e CoverageService" where
  "updateServiceState state s = appendLine (StateLine state) s"

definition new_CoverageService :: "StatusBarToggler \<Rightarrow> 'e CoverageService" where
  "new_CoverageService sb =
     \<lparr>statusBar = sb, outputChannel = [StateLine initializing], rendered = [],
      isCoverageDisplayed = False, cache = []\<rparr>"

definition statusBar_setLoading :: "bool \<Rightarrow> 'e CoverageService \<Rightarrow> 'e CoverageService" where
  "statusBar_setLoading b s = s\<lparr>statusBar := setLoading (Some b) (statusBar s)\<rparr>"

text \<open>A call of the renderer: the call is received, and it may throw.\<close>

definition renderer_renderCoverage ::
  "('e, 'fs) collaborators \<Rightarrow> cache \<Rightarrow> 'e list \<Rightarrow> 'e CoverageService \<Rightarrow> exn option \<times> 'e CoverageService" where
  "renderer_renderCoverage k c editors s =
     (renderCoverage k c editors, s\<lparr>rendered := rendered s @ [(c, editors)]\<rparr>)"

text \<open>
  A method that may throw returns the exception (\<open>None\<close> when it returns normally) and
  the state it leaves. \<^verbatim>\<open>loadCache\<close> awaits the loader twice and the parser once; \<open>fs1\<close>
  and \<open>fs2\<close> are the file system as the discovery and the read find it.
\<close>

definition loadCache ::
  "('e, 'fs) collaborators \<Rightarrow> 'fs \<Rightarrow> 'fs \<Rightarrow> 'e CoverageService \<Rightarrow> exn option \<times> 'e CoverageService" where
  "loadCache k fs1 fs2 s =
     (let s1 = updateServiceState loading s
      in case findCoverageFiles k fs1 of
           Inl e \<Rightarrow> (Some e, s1)
         | Inr files \<Rightarrow>
             (let s2 = appendLine (FileList files) (appendLine (LoadingFiles (length files)) s1)
              in case loadDataFiles k fs2 files of
                   Inl e \<Rightarrow> (Some e, s2)
                 | Inr dataFiles \<Rightarrow>
                     (let s3 = appendLine (LoadedDataFiles (length dataFiles)) s2
                      in case filesToSections k dataFiles of
                           Inl e \<Rightarrow> (Some e, s3)
                         | Inr dataCoverage \<Rightarrow>
                             (let s4 = appendLine (CachingCoverages (length dataCoverage)) s3;
                                  s5 = s4\<lparr>cache := dataCoverage\<rparr>
                              in (None, updateServiceState ready s5)))))"

text \<open>The statements of \<^verbatim>\<open>loadCacheAndProcess\<close> after \<^verbatim>\<open>await this.loadCache()\<close>, inside
  the \<^verbatim>\<open>try\<close>.\<close>

definition process :: 
  "('e, 'fs) collaborators \<Rightarrow> 'e window \<Rightarrow> 'e CoverageService \<Rightarrow> exn option \<times> 'e CoverageService" where
  "process k win s =
     (let s1 = updateServiceState rendering s;
          (r, s2) = renderer_renderCoverage k (cache s1) (visibleTextEditors win) s1
      in case r of
           Some e \<Rightarrow> (Some e, s2)
         | None \<Rightarrow>
             (let s3 = s2\<lparr>statusBar :=
                         setStatusBarCoverage k (cache s2) (activeTextEditor win) (statusBar s2)\<rparr>
              in (None, updateServiceState ready s3)))"

definition loadCacheAndProcess ::
  "('e, 'fs) collaborators \<Rightarrow> 'fs \<Rightarrow> 'fs \<Rightarrow> 'e window \<Rightarrow> 'e CoverageService \<Rightarrow>
     exn option \<times> 'e CoverageService" where
  "loadCacheAndProcess k fs1 fs2 win s =
     (let (r, s1) = loadCache k fs1 fs2 (statusBar_setLoading True s);
          (r', s2) = (case r of Some e \<Rightarrow> (Some e, s1) | None \<Rightarrow> process k win s1)
      in (r', statusBar_setLoading False s2))"

definition displayForFile ::
  "('e, 'fs) collaborators \<Rightarrow> 'fs \<Rightarrow> 'fs \<Rightarrow> 'e window \<Rightarrow> 'e CoverageService \<Rightarrow>
     exn option \<times> 'e CoverageService" where
  "displayForFile k fs1 fs2 win s =
     (let (r, s1) = loadCacheAndProcess k fs1 fs2 win s
      in case r of
           Some e \<Rightarrow> (Some e, s1)
         | None \<Rightarrow> (None, s1\<lparr>isCoverageDisplayed := True\<rparr>))"

definition removeCoverageForCurrentEditor ::
  "('e, 'fs) collaborators \<Rightarrow> 'e window \<Rightarrow> 'e CoverageService \<Rightarrow> exn option \<times> 'e CoverageService" where
  "removeCoverageForCurrentEditor k win s =
     (let (r, s1) = renderer_renderCoverage k [] (visibleTextEditors win) (statusBar_setLoading True s)
      in (r, (statusBar_setLoading False s1)\<lparr>isCoverageDisplayed := False\<rparr>))"

text \<open>\<^verbatim>\<open>toggleCoverage\<close> does not await \<^verbatim>\<open>removeCoverageForCurrentEditor\<close>: an exception
  of that call is not the caller's.\<close>

definition toggleCoverage ::
  "('e, 'fs) collaborators \<Rightarrow> 'fs \<Rightarrow> 'fs \<Rightarrow> 'e window \<Rightarrow> 'e CoverageService \<Rightarrow>
     exn option \<times> 'e CoverageService" where
  "toggleCoverage k fs1 fs2 win s =
     (if isCoverageDisplayed s then (None, snd (removeCoverageForCurrentEditor k win s))
      else displayForFile k fs1 fs2 win s)"

definition handleEditorEvents ::
  "('e, 'fs) collaborators \<Rightarrow> 'e window \<Rightarrow> 'e CoverageService \<Rightarrow> exn option \<times> 'e CoverageService" where
  "handleEditorEvents k win s =
     (let s1 = statusBar_setLoading True (updateServiceState rendering s);
          (r, s2) = renderer_renderCoverage k (cache s1) (visibleTextEditors win) s1;
          (r', s3) =
            (case r of
               Some e \<Rightarrow> (Some e, s2)
             | None \<Rightarrow>
                 (None, updateServiceState ready
                    (s2\<lparr>statusBar :=
                          setStatusBarCoverage k (cache s2) (activeTextEditor win) (statusBar s2)\<rparr>)))
      in (r', statusBar_setLoading False s3))"

section \<open>Refresh cycles in flight\<close>

text \<open>
  \<^verbatim>\<open>loadCacheAndProcess\<close> is asynchronous: it runs to its first \<^verbatim>\<open>await\<close>, and each
  later piece runs when the awaited promise has settled. Between two pieces of one call
  the pieces of other calls may run, since the file system watcher calls the method on
  every notification. A call in flight is a task: where it waits, with the locals that
  its rest reads. \<open>fs_find\<close>, \<open>fs_load\<close> and \<open>produced\<close> record what the task has seen
  and assigned; the code does not read them.
\<close>

datatype pc =
    AtFind
  | AtLoad "string list"
  | AtParse "(string \<times> string) list"
  | AtReturn "exn option"
  | Ended "exn option"

record 'fs task =
  pc :: pc
  fs_find :: "'fs option"
  fs_load :: "'fs option"
  produced :: "cache option"

text \<open>The call itself, up to \<^verbatim>\<open>await this.filesLoader.findCoverageFiles()\<close>.\<close>

definition start :: "'e CoverageService \<Rightarrow> 'e CoverageService \<times> 'fs task" where
  "start s =
     (updateServiceState loading (statusBar_setLoading True s),
      \<lparr>pc = AtFind, fs_find = None, fs_load = None, produced = None\<rparr>)"

text \<open>
  The piece of a task that runs when its promise has settled, with the file system and
  the window as they are then. A rejected promise makes \<^verbatim>\<open>loadCache\<close> reject, which the
  \<^verbatim>\<open>await\<close> of \<^verbatim>\<open>loadCacheAndProcess\<close> receives in a piece of its own.
\<close>

definition resume ::
  "('e, 'fs) collaborators \<Rightarrow> 'fs \<Rightarrow> 'e window \<Rightarrow> 'e CoverageService \<Rightarrow> 'fs task \<Rightarrow>
     'e CoverageService \<times> 'fs task" where
  "resume k fs win s t =
     (case pc t of
        AtFind \<Rightarrow>
          (case findCoverageFiles k fs of
             Inl e \<Rightarrow> (s, t\<lparr>pc := AtReturn (Some e)\<rparr>)
           | Inr files \<Rightarrow>
               (appendLine (FileList files) (appendLine (LoadingFiles (length files)) s),
                t\<lparr>pc := AtLoad files, fs_find := Some fs\<rparr>))
      | AtLoad files \<Rightarrow>
          (case loadDataFiles k fs files of
             Inl e \<Rightarrow> (s, t\<lparr>pc := AtReturn (Some e)\<rparr>)
           | Inr dataFiles \<Rightarrow>
               (appendLine (LoadedDataFiles (length dataFiles)) s,
                t\<lparr>pc := AtParse dataFiles, fs_load := Some fs\<rparr>))
      | AtParse dataFiles \<Rightarrow>
          (case filesToSections k dataFiles of
             Inl e \<Rightarrow> (s, t\<lparr>pc := AtReturn (Some e)\<rparr>)
           | Inr dataCoverage \<Rightarrow>
               (updateServiceState ready
                  ((appendLine (CachingCoverages (length dataCoverage)) s)\<lparr>cache := dataCoverage\<rparr>),
                t\<lparr>pc := AtReturn None, produced := Some dataCoverage\<rparr>))
      | AtReturn r \<Rightarrow>
          (let (r', s1) = (case r of Some e \<Rightarrow> (Some e, s) | None \<Rightarrow> process k win s)
           in (statusBar_setLoading False s1, t\<lparr>pc := Ended r'\<rparr>))
      | Ended r \<Rightarrow> (s, t))"

text \<open>
  What happens next is the environment's choice: a notification of the watcher starts a
  task, or the promise of task \<open>i\<close> settles.
\<close>

datatype ('e, 'fs) event = Trigger | Resume nat 'fs "'e window"

fun step ::
  "('e, 'fs) collaborators \<Rightarrow> ('e, 'fs) event \<Rightarrow> 'e CoverageService \<times> 'fs task list \<Rightarrow>
     'e CoverageService \<times> 'fs task list" where
  "step k Trigger (s, ts) = (let (s1, t) = start s in (s1, ts @ [t]))"
| "step k (Resume i fs win) (s, ts) =
     (if i < length ts
      then (let (s1, t) = resume k fs win s (ts ! i) in (s1, ts[i := t]))
      else (s, ts))"

definition run ::
  "('e, 'fs) collaborators \<Rightarrow> ('e, 'fs) event list \<Rightarrow> 'e CoverageService \<times> 'fs task list \<Rightarrow>
     'e CoverageService \<times> 'fs task list" where
  "run k evs c = foldl (\<lambda>c ev. step k ev c) c evs"

text \<open>The mapping that the three awaited calls of one \<^verbatim>\<open>loadCache\<close> yield, when none of
  them fails.\<close>

definition pipeline :: "('e, 'fs) collaborators \<Rightarrow> 'fs \<Rightarrow> 'fs \<Rightarrow> cache option" where
  "pipeline k fs1 fs2 =
     (case findCoverageFiles k fs1 of
        Inl e \<Rightarrow> None
      | Inr files \<Rightarrow>
          (case loadDataFiles k fs2 files of
             Inl e \<Rightarrow> None
           | Inr dataFiles \<Rightarrow>
               (case filesToSections k dataFiles of Inl e \<Rightarrow> None | Inr dataCoverage \<Rightarrow> Some dataCoverage)))"

text \<open>The states that a stretch of the output channel names.\<close>

fun states_of :: "log_line list \<Rightarrow> Status list" where
  "states_of [] = []"
| "states_of (StateLine st # ls) = st # states_of ls"
| "states_of (l # ls) = states_of ls"

section \<open>Concrete inputs\<close>

text \<open>
  Sections, and collaborators over a file system that is a list of coverage files with
  their content: every file is discovered, a file parses into one section whose hit
  count is the length of its content, the renderer never throws, and the finder returns
  the sections cached under the editor's file name. An editor is its file name.
\<close>

definition section_5_of_10 :: Section where
  "section_5_of_10 = \<lparr>lines = Some \<lparr>hit = 5, found = 10\<rparr>, branches = Some \<lparr>hit = 1, found = 2\<rparr>\<rparr>"

definition section_23_of_40 :: Section where
  "section_23_of_40 = \<lparr>lines = Some \<lparr>hit = 23, found = 40\<rparr>, branches = None\<rparr>"

definition section_without_lines :: Section where
  "section_without_lines = \<lparr>lines = None, branches = None\<rparr>"

definition toy_collaborators :: "(string, (string \<times> string) list) collaborators" where
  "toy_collaborators =
     \<lparr>findCoverageFiles = (\<lambda>fs. Inr (map fst fs)),
      loadDataFiles = (\<lambda>fs files. Inr (filter (\<lambda>(f, c). f \<in> set files) fs)),
      filesToSections =
        (\<lambda>d. Inr (map (\<lambda>(f, c). (f, \<lparr>lines = Some \<lparr>hit = length c, found = 40\<rparr>, branches = None\<rparr>)) d)),
      renderCoverage = (\<lambda>c editors. None),
      findSectionsForEditor = (\<lambda>ed c. Inr (map snd (filter (\<lambda>(f, x). f = ed) c))),
      toString = Number_toString\<rparr>"

definition lcov_fs :: "(string \<times> string) list" where
  "lcov_fs = [(''lcov.info'', ''xxx'')]"

definition editor_a :: "string window" where
  "editor_a = \<lparr>visibleTextEditors = [''a.ts''], activeTextEditor = Some ''a.ts''\<rparr>"

text \<open>The same collaborators, with a discovery that fails.\<close>

definition failing_discovery :: "(string, (string \<times> string) list) collaborators" where
  "failing_discovery = toy_collaborators\<lparr>findCoverageFiles := (\<lambda>fs. Inl (Thrown ''EACCES''))\<rparr>"

text \<open>
  A burst of two notifications over a coverage file that changes in between: the cycle
  started first reads the old content and is the last to assign the cache.
\<close>

definition fs_old :: "(string \<times> string) list" where
  "fs_old = [(''lcov.info'', ''x'')]"

definition fs_new :: "(string \<times> string) list" where
  "fs_new = [(''lcov.info'', ''xx'')]"

definition no_editor :: "string window" where
  "no_editor = \<lparr>visibleTextEditors = [], activeTextEditor = None\<rparr>"

definition burst :: "(string, (string \<times> string) list) event list" where
  "burst = [Trigger, Trigger,
            Resume 0 fs_old no_editor, Resume 0 fs_old no_editor,
            Resume 1 fs_new no_editor, Resume 1 fs_new no_editor,
            Resume 1 fs_new no_editor, Resume 1 fs_new no_editor,
            Resume 0 fs_new no_editor, Resume 0 fs_new no_editor]"

text \<open>A cycle whose discovery has failed, before \<^verbatim>\<open>loadCacheAndProcess\<close> receives the
  rejection.\<close>

definition after_failed_discovery ::
  "string CoverageService \<times> (string \<times> string) list task list" where
  "after_failed_discovery =
     run failing_discovery [Trigger, Resume 0 lcov_fs no_editor]
       (new_CoverageService new_StatusBarToggler, [])"

section \<open>What a task in flight has seen\<close>

text \<open>
  The invariant of a task: the files it holds were discovered in \<open>fs_find\<close>, the data
  it holds were read in \<open>fs_load\<close>, the mapping it has assigned is the one those yield,
  and it has assigned one if it got past the parse.
\<close>

definition task_inv :: "('e, 'fs) collaborators \<Rightarrow> 'fs task \<Rightarrow> bool" where
  "task_inv k t =
     ((pc t = AtFind \<longrightarrow> produced t = None)
      \<and> (\<forall>files. pc t = AtLoad files \<longrightarrow>
         produced t = None \<and> (\<exists>a. fs_find t = Some a \<and> findCoverageFiles k a = Inr files))
      \<and> (\<forall>d. pc t = AtParse d \<longrightarrow>
         produced t = None
         \<and> (\<exists>a b files. fs_find t = Some a \<and> fs_load t = Some b
            \<and> findCoverageFiles k a = Inr files \<and> loadDataFiles k b files = Inr d))
      \<and> (\<forall>c. produced t = Some c \<longrightarrow>
         (\<exists>a b. fs_find t = Some a \<and> fs_load t = Some b \<and> pipeline k a b = Some c))
      \<and> (pc t = AtReturn None \<longrightarrow> produced t \<noteq> None)
      \<and> (pc t = Ended None \<longrightarrow> produced t \<noteq> None))"

section \<open>The status bar text of a call of setCoverage\<close>

lemma update_fields [simp]:
  "isActive (update sb) = isActive sb"
  "isLoading (update sb) = isLoading sb"
  "lineCoverage (update sb) = lineCoverage sb"
  "isWarn (update sb) = isWarn sb"
  by (simp_all add: update_def Let_def)

text \<open>
  Claim C6. A call of \<^verbatim>\<open>setCoverage\<close> with four finite percentages sets the text
  \<^verbatim>\<open>"{line},{branch}%/{totalLine},{totalBranch}%"\<close> and warns exactly when the total line
  percentage is below 60 or the total branch percentage below 40; with a finite line and
  total line percentage and not both branch percentages it sets \<^verbatim>\<open>"{line}%/{totalLine}%"\<close>
  and does not warn; with a finite line percentage and no finite total it sets
  \<^verbatim>\<open>"{line}%"\<close> and does not warn; with no finite line percentage it clears the text and
  does not warn. The warning of an earlier call has no effect on the result. The call
  \<^verbatim>\<open>setCoverage(55, 55, 70, 70)\<close> warns and sets \<^verbatim>\<open>"55,70%/55,70%"\<close>.
\<close>

theorem setCoverage_cases:
  "(lineCoverage (setCoverage str (Some (Fin lp)) (Some (Fin tlp)) (Some (Fin bp)) (Some (Fin tbp)) sb)
      = Some (str lp @ '','' @ str bp @ ''%/'' @ str tlp @ '','' @ str tbp @ ''%'')
    \<and> isWarn (setCoverage str (Some (Fin lp)) (Some (Fin tlp)) (Some (Fin bp)) (Some (Fin tbp)) sb)
      = (tlp < 60 \<or> tbp < 40))
   \<and> (\<not> (isFinite vb \<and> isFinite vtb) \<longrightarrow>
        lineCoverage (setCoverage str (Some (Fin lp)) (Some (Fin tlp)) vb vtb sb)
          = Some (str lp @ ''%/'' @ str tlp @ ''%'')
        \<and> \<not> isWarn (setCoverage str (Some (Fin lp)) (Some (Fin tlp)) vb vtb sb))
   \<and> (\<not> isFinite vtl \<longrightarrow>
        lineCoverage (setCoverage str (Some (Fin lp)) vtl vb vtb sb) = Some (str lp @ ''%'')
        \<and> \<not> isWarn (setCoverage str (Some (Fin lp)) vtl vb vtb sb))
   \<and> (\<not> isFinite vl \<longrightarrow>
        lineCoverage (setCoverage str vl vtl vb vtb sb) = None
        \<and> \<not> isWarn (setCoverage str vl vtl vb vtb sb))
   \<and> setCoverage str vl vtl vb vtb (sb\<lparr>isWarn := w\<rparr>) = setCoverage str vl vtl vb vtb sb
   \<and> lineCoverage (setCoverage Number_toString (Some (Fin 55)) (Some (Fin 55)) (Some (Fin 70)) (Some (Fin 70)) sb)
        = Some ''55,70%/55,70%''
   \<and> isWarn (setCoverage Number_toString (Some (Fin 55)) (Some (Fin 55)) (Some (Fin 70)) (Some (Fin 70)) sb)"
proof -
  have n55: "Number_toString 55 = ''55''" and n70: "Number_toString 70 = ''70''"
    by code_simp+
  show ?thesis
    by (simp add: setCoverage_def Let_def n55 n70)
qed

theorem setCoverage_cases_witness:
  "\<not> (isFinite None \<and> isFinite None)
   \<and> lineCoverage (setCoverage Number_toString (Some (Fin 80)) (Some (Fin 90)) None None new_StatusBarToggler)
       = Some ''80%/90%''
   \<and> \<not> isWarn (setCoverage Number_toString (Some (Fin 80)) (Some (Fin 90)) None None new_StatusBarToggler)
   \<and> \<not> isFinite (Some NaN)
   \<and> lineCoverage (setCoverage Number_toString (Some (Fin 80)) (Some NaN) None None new_StatusBarToggler)
       = Some ''80%''
   \<and> lineCoverage (setCoverage Number_toString None (Some NaN) None None new_StatusBarToggler) = None"
proof -
  have n: "Number_toString 80 = ''80''" "Number_toString 90 = ''90''"
    by code_simp+
  show ?thesis
    using setCoverage_cases [where str = Number_toString and lp = 80 and tlp = 90
        and sb = new_StatusBarToggler and vb = None and vtb = None and vtl = "Some NaN" and vl = None]
    by (simp add: n)
qed

section \<open>The rounding to binary64\<close>

text \<open>The threshold by repeated squaring, for evaluation.\<close>

lemma overflow_threshold_squares [code]:
  "overflow_threshold = ((((2 ^ 64) ^ 2) ^ 2) ^ 2) ^ 2"
  by (simp add: overflow_threshold_def)

text \<open>
  \<open>log2floor\<close> is the integer part of the binary logarithm, and the rounding leaves
  every count below \<open>2 ^ 53\<close> as it is.
\<close>

lemma log2floor_ge1:
  assumes "1 \<le> x"
  shows "pow2 (log2floor x) \<le> x \<and> x < pow2 (log2floor x + 1)"
proof -
  let ?n = "\<lfloor>x\<rfloor>"
  have n: "0 < ?n" using assms by simp
  have b: "2 ^ nat (bitlen ?n - 1) \<le> ?n" "?n < 2 ^ nat (bitlen ?n)"
    using bitlen_bounds [OF n] by simp_all
  have k: "1 \<le> bitlen ?n"
    using n by (simp add: bitlen_alt_def)
  have "(2::rat) ^ nat (bitlen ?n - 1) = of_int (2 ^ nat (bitlen ?n - 1))"
    by simp
  also have "\<dots> \<le> of_int ?n"
    using b(1) by (simp only: of_int_le_iff)
  also have "\<dots> \<le> x"
    by simp
  finally have lo: "(2::rat) ^ nat (bitlen ?n - 1) \<le> x" .
  have "?n + 1 \<le> 2 ^ nat (bitlen ?n)"
    using b(2) by simp
  then have "(of_int (?n + 1) :: rat) \<le> of_int (2 ^ nat (bitlen ?n))"
    by (simp only: of_int_le_iff)
  moreover have "x < of_int (?n + 1)"
    by linarith
  ultimately have hi: "x < 2 ^ nat (bitlen ?n)"
    by simp
  show ?thesis
    using lo hi k assms by (simp add: log2floor_def pow2_def)
qed

lemma log2floor_lt1:
  assumes "0 < x" "x < 1"
  shows "pow2 (log2floor x) \<le> x \<and> x < pow2 (log2floor x + 1)"
proof -
  let ?y = "1 / x"
  let ?m = "\<lceil>?y\<rceil> - 1"
  have y: "1 < ?y" using assms by simp
  have m: "0 < ?m" using y by linarith
  have my: "of_int ?m < ?y" "?y \<le> of_int (?m + 1)"
    by linarith+
  have b: "2 ^ nat (bitlen ?m - 1) \<le> ?m" "?m < 2 ^ nat (bitlen ?m)"
    using bitlen_bounds [OF m] by simp_all
  have k: "1 \<le> bitlen ?m"
    using m by (simp add: bitlen_alt_def)
  have "?m + 1 \<le> 2 ^ nat (bitlen ?m)"
    using b(2) by simp
  then have "(of_int (?m + 1) :: rat) \<le> of_int (2 ^ nat (bitlen ?m))"
    by (simp only: of_int_le_iff)
  with my(2) have "?y \<le> of_int (2 ^ nat (bitlen ?m))"
    by (rule order_trans)
  also have "\<dots> = 2 ^ nat (bitlen ?m)"
    by simp
  finally have "?y \<le> 2 ^ nat (bitlen ?m)" .
  then have lo: "1 / 2 ^ nat (bitlen ?m) \<le> x"
    using assms by (simp add: field_simps)
  have "(of_int (2 ^ nat (bitlen ?m - 1)) :: rat) \<le> of_int ?m"
    using b(1) by (simp only: of_int_le_iff)
  then have "(of_int (2 ^ nat (bitlen ?m - 1)) :: rat) < ?y"
    using my(1) by (rule le_less_trans)
  moreover have "(of_int (2 ^ nat (bitlen ?m - 1)) :: rat) = 2 ^ nat (bitlen ?m - 1)"
    by simp
  ultimately have "2 ^ nat (bitlen ?m - 1) < ?y"
    by (simp only:)
  then have hi: "x < 1 / 2 ^ nat (bitlen ?m - 1)"
    using assms by (simp add: field_simps)
  have e: "nat (- (1 - bitlen ?m)) = nat (bitlen ?m - 1)"
    by simp
  show ?thesis
    using lo hi k assms
    by (auto simp: log2floor_def pow2_def e)
qed

lemma log2floor_bounds:
  "0 < x \<Longrightarrow> pow2 (log2floor x) \<le> x \<and> x < pow2 (log2floor x + 1)"
  using log2floor_ge1 [of x] log2floor_lt1 [of x] by (cases "1 \<le> x") auto


lemma round_half_even_of_int: "round_half_even (of_int z) = z"
  by (simp add: round_half_even_def)

lemma pow2_nonpos: "e \<le> 0 \<Longrightarrow> pow2 e = 1 / 2 ^ nat (- e)"
  by (cases "e = 0") (simp_all add: pow2_def)


lemma to_double_of_nat:
  assumes "0 < n" "n < 2 ^ 53"
  shows "to_double (of_nat n) = Fin (of_nat n)"
proof -
  let ?a = "of_nat n :: rat"
  let ?L = "log2floor ?a"
  have a1: "1 \<le> ?a" using assms(1) by simp
  have a0: "0 < ?a" using assms(1) by simp
  have bnd: "pow2 ?L \<le> ?a" "?a < pow2 (?L + 1)"
    using log2floor_bounds [OF a0] by simp_all
  have L0: "0 \<le> ?L"
    using a1 by (simp add: log2floor_def bitlen_alt_def)
  have "?a < 2 ^ 53"
    using assms(2) by (metis of_nat_less_iff of_nat_numeral of_nat_power)
  with bnd(1) have "pow2 ?L < 2 ^ 53" by simp
  then have "(2::rat) ^ nat ?L < 2 ^ 53"
    using L0 by (simp add: pow2_def)
  then have "nat ?L < 53"
    using power_less_imp_less_exp [of "2::rat" "nat ?L" 53] by simp
  then have L52: "?L \<le> 52" by simp
  define d where "d = nat (52 - ?L)"
  have e: "max (?L - 52) (- 1074) = ?L - 52"
    using L0 by simp
  have p: "pow2 (?L - 52) = 1 / 2 ^ d"
    using L52 by (simp add: pow2_nonpos d_def)
  have q: "?a / pow2 (?L - 52) = of_int (int n * 2 ^ d)"
    by (simp add: p)
  have r: "round_half_even (?a / pow2 (?L - 52)) = int n * 2 ^ d"
    unfolding q by (rule round_half_even_of_int)
  have y: "of_int (int n * 2 ^ d) * pow2 (?L - 52) = ?a"
    by (simp add: p)
  have small: "\<not> (overflow_threshold \<le> ?a)"
    using \<open>?a < 2 ^ 53\<close> power_increasing [of 53 1024 "2::rat"]
    by (simp add: overflow_threshold_def)
  have abs: "\<bar>?a\<bar> = ?a"
    by simp
  have "to_double ?a =
          (if ?a = 0 then Fin 0
           else if overflow_threshold \<le> ?a then (if 0 < ?a then PInf else NInf)
           else Fin (if 0 < ?a then ?a else - ?a))"
    by (simp only: to_double_def Let_def abs e r y)
  with a0 small show ?thesis
    by simp
qed

section \<open>The percentages\<close>

lemma percent_0_1: "percent (Fin 0) (Fin 1) = Fin 0"
  by (simp add: percent_def to_double_def floor_eq_iff)

lemma foldl_branches_hit:
  "total_branches_hit t = Fin a \<Longrightarrow>
   total_branches_hit (foldl forEach_body t xs)
     = Fin (a + of_nat (sum_list (map (\<lambda>x. or_default (map_option hit (branches x)) 0) xs)))"
  by (induction xs arbitrary: t a) (simp_all add: forEach_body_def)

lemma foldl_branches_found:
  "total_branches_found t = Fin a \<Longrightarrow>
   total_branches_found (foldl forEach_body t xs)
     = Fin (a + of_nat (sum_list (map (\<lambda>x. or_default (map_option found (branches x)) 0) xs)))"
  by (induction xs arbitrary: t a) (simp_all add: forEach_body_def)

lemma sum_branches_hit:
  "total_branches_hit (sum_sections c)
     = Fin (of_nat (sum_list (map (\<lambda>x. or_default (map_option hit (branches x)) 0) (map snd c))))"
  using foldl_branches_hit [of totals0 0 "map snd c"] by (simp add: sum_sections_def totals0_def)

lemma sum_branches_found:
  "total_branches_found (sum_sections c)
     = Fin (of_nat (sum_list (map (\<lambda>x. or_default (map_option found (branches x)) 0) (map snd c))))"
  using foldl_branches_found [of totals0 0 "map snd c"] by (simp add: sum_sections_def totals0_def)

text \<open>
  Claim C7. For a section without branch data, the branch percentage of the file is
  computed from hit 0 and found 1 and is 0; the section adds 0 to the branch hits and
  to the branch founds of the workspace, so the totals are those of the cache without
  it; and the branch percentage of the workspace is 0 when the found total is 0.
\<close>

theorem branch_defaults:
  "(branches x = None \<longrightarrow>
      b_coverage (Some x) = percent (Fin (of_nat 0)) (Fin (of_nat 1)) \<and> b_coverage (Some x) = Fin 0)
   \<and> (branches x = None \<longrightarrow>
      total_branches_hit (forEach_body t x) = js_add (total_branches_hit t) (Fin 0)
      \<and> total_branches_found (forEach_body t x) = js_add (total_branches_found t) (Fin 0))
   \<and> (branches x = None \<longrightarrow>
      total_branches_hit (sum_sections (c1 @ (f, x) # c2)) = total_branches_hit (sum_sections (c1 @ c2))
      \<and> total_branches_found (sum_sections (c1 @ (f, x) # c2)) = total_branches_found (sum_sections (c1 @ c2)))
   \<and> (total_branches_found (sum_sections c) = Fin 0 \<longrightarrow> b_total_coverage c = Fin 0)"
  using percent_0_1
  by (simp add: b_coverage_def forEach_body_def sum_branches_hit sum_branches_found
      b_total_coverage_def)

theorem branch_defaults_witness:
  "branches section_23_of_40 = None
   \<and> b_coverage (Some section_23_of_40) = Fin 0
   \<and> total_branches_found (forEach_body totals0 section_23_of_40) = Fin 0
   \<and> total_branches_hit (sum_sections [(''a.ts'', section_5_of_10), (''b.ts'', section_23_of_40)])
       = total_branches_hit (sum_sections [(''a.ts'', section_5_of_10)])
   \<and> total_branches_found (sum_sections [(''b.ts'', section_23_of_40)]) = Fin 0
   \<and> b_total_coverage [(''b.ts'', section_23_of_40)] = Fin 0"
proof -
  have b: "branches section_23_of_40 = None"
    by (simp add: section_23_of_40_def)
  have z: "total_branches_found (sum_sections [(''b.ts'', section_23_of_40)]) = Fin 0"
    by (simp add: sum_sections_def forEach_body_def totals0_def b)
  show ?thesis
    using b z
      branch_defaults [where x = section_23_of_40 and t = totals0
        and ?c1.0 = "[(''a.ts'', section_5_of_10)]" and f = "''b.ts''" and ?c2.0 = "[]"
        and c = "[(''b.ts'', section_23_of_40)]"]
    by (simp add: totals0_def percent_0_1)
qed

text \<open>
  The line percentage of the workspace over a cache whose sections all have line data:
  it is 0 when no line is found (so over the empty cache), it is \<^verbatim>\<open>Math.round\<close> of the
  rounded quotient times 100 otherwise, and it is never \<^verbatim>\<open>NaN\<close>.
\<close>

lemma to_double_not_NaN: "to_double x \<noteq> NaN"
  by (simp add: to_double_def Let_def)

lemma Math_round_NaN: "(Math_round v = NaN) = (v = NaN)"
  by (cases v) simp_all

lemma js_mul_100_not_NaN: "v \<noteq> NaN \<Longrightarrow> js_mul v (Fin 100) \<noteq> NaN"
  by (cases v) (simp_all add: to_double_not_NaN)

lemma percent_not_NaN: "b \<noteq> 0 \<Longrightarrow> percent (Fin a) (Fin b) \<noteq> NaN"
  by (simp add: percent_def Math_round_NaN js_mul_100_not_NaN to_double_not_NaN)

lemma foldl_lines_hit:
  "\<forall>x \<in> set xs. lines x \<noteq> None \<Longrightarrow> total_lines_hit t = Fin a \<Longrightarrow>
   total_lines_hit (foldl forEach_body t xs)
     = Fin (a + of_nat (sum_list (map (\<lambda>x. hit (the (lines x))) xs)))"
  by (induction xs arbitrary: t a) (auto simp: forEach_body_def)

lemma foldl_lines_found:
  "\<forall>x \<in> set xs. lines x \<noteq> None \<Longrightarrow> total_lines_found t = Fin a \<Longrightarrow>
   total_lines_found (foldl forEach_body t xs)
     = Fin (a + of_nat (sum_list (map (\<lambda>x. found (the (lines x))) xs)))"
  by (induction xs arbitrary: t a) (auto simp: forEach_body_def)

lemma total_coverage_with_lines:
  assumes "\<forall>x \<in> set (map snd c). lines x \<noteq> None"
  shows "total_coverage c
     = (if sum_list (map (\<lambda>x. found (the (lines x))) (map snd c)) = 0 then Fin 0
        else percent (Fin (of_nat (sum_list (map (\<lambda>x. hit (the (lines x))) (map snd c)))))
               (Fin (of_nat (sum_list (map (\<lambda>x. found (the (lines x))) (map snd c))))))"
    and "total_coverage c \<noteq> NaN"
proof -
  have h: "total_lines_hit (sum_sections c)
             = Fin (of_nat (sum_list (map (\<lambda>x. hit (the (lines x))) (map snd c))))"
    using foldl_lines_hit [OF assms, of totals0 0] by (simp add: sum_sections_def totals0_def)
  have f: "total_lines_found (sum_sections c)
             = Fin (of_nat (sum_list (map (\<lambda>x. found (the (lines x))) (map snd c))))"
    using foldl_lines_found [OF assms, of totals0 0] by (simp add: sum_sections_def totals0_def)
  show 1: "total_coverage c
     = (if sum_list (map (\<lambda>x. found (the (lines x))) (map snd c)) = 0 then Fin 0
        else percent (Fin (of_nat (sum_list (map (\<lambda>x. hit (the (lines x))) (map snd c)))))
               (Fin (of_nat (sum_list (map (\<lambda>x. found (the (lines x))) (map snd c))))))"
    by (simp add: total_coverage_def Let_def h f)
  show "total_coverage c \<noteq> NaN"
    unfolding 1 using percent_not_NaN by simp
qed

lemma total_coverage_empty: "total_coverage [] = Fin 0"
  by (simp add: total_coverage_def sum_sections_def totals0_def)

text \<open>
  Claim C2, at a cache of one section with 23 lines hit of 40 found. The exact
  percentage is 57.5, which rounds to 58. The quotient 23 / 40 is not a binary64 number:
  the division rounds it down, the product with 100 rounds to the binary64 number just
  below 57.5, and \<^verbatim>\<open>Math.round\<close> yields 57.
\<close>

theorem total_coverage_23_of_40:
  "js_div (Fin 23) (Fin 40) = Fin (2589569785738035 / 2 ^ 52)
   \<and> js_mul (js_div (Fin 23) (Fin 40)) (Fin 100) = Fin (8092405580431359 / 2 ^ 47)
   \<and> total_coverage [(''a.ts'', section_23_of_40)] = Fin 57
   \<and> round (100 * 23 / 40 :: rat) = 58"
  by code_simp

lemma coverage_5_of_10: "coverage (Some section_5_of_10) = Fin 50"
  by code_simp

lemma b_coverage_5_of_10: "b_coverage (Some section_5_of_10) = Fin 50"
  by code_simp

lemma total_coverage_without_lines:
  "total_coverage [(''a.ts'', section_5_of_10), (''b.ts'', section_without_lines)] = NaN"
  by code_simp

lemma b_total_coverage_without_lines:
  "b_total_coverage [(''a.ts'', section_5_of_10), (''b.ts'', section_without_lines)] = Fin 50"
  by code_simp

lemma Number_toString_50: "Number_toString 50 = ''50''"
  by code_simp

lemma setCoverage_not_finite:
  "\<not> isFinite v \<Longrightarrow> setCoverage str v a b c sb = setCoverage str None None None None sb"
  by (simp add: setCoverage_def Let_def)

lemma coverage_None: "coverage None = NaN"
  by (simp add: coverage_def percent_def)

lemma coverage_no_lines: "lines x = None \<Longrightarrow> coverage (Some x) = NaN"
  by (simp add: coverage_def percent_def)

lemma coverage_found_0: "lines x = Some c \<Longrightarrow> found c = 0 \<Longrightarrow> \<not> isFinite (Some (coverage (Some x)))"
  by (simp add: coverage_def percent_def)

text \<open>
  Claim C3, as the code has it. When there is no active editor, or the finder throws,
  or it returns no section, or the first section it returns has no line data or no
  line found, \<^verbatim>\<open>setStatusBarCoverage\<close> leaves the status bar as \<^verbatim>\<open>setCoverage(undefined)\<close>
  does: no text, no warning. The function returns in every case.
\<close>

theorem no_coverage_cases:
  "textEditor = None
   \<or> (\<exists>ed e. textEditor = Some ed \<and> findSectionsForEditor k ed sections = Inl e)
   \<or> (\<exists>ed. textEditor = Some ed \<and> findSectionsForEditor k ed sections = Inr [])
   \<or> (\<exists>ed x xs. textEditor = Some ed \<and> findSectionsForEditor k ed sections = Inr (x # xs)
         \<and> (lines x = None \<or> (\<exists>c. lines x = Some c \<and> found c = 0)))
   \<Longrightarrow> setStatusBarCoverage k sections textEditor sb = setCoverage (toString k) None None None None sb
       \<and> lineCoverage (setStatusBarCoverage k sections textEditor sb) = None
       \<and> \<not> isWarn (setStatusBarCoverage k sections textEditor sb)"
proof -
  assume a: "textEditor = None
   \<or> (\<exists>ed e. textEditor = Some ed \<and> findSectionsForEditor k ed sections = Inl e)
   \<or> (\<exists>ed. textEditor = Some ed \<and> findSectionsForEditor k ed sections = Inr [])
   \<or> (\<exists>ed x xs. textEditor = Some ed \<and> findSectionsForEditor k ed sections = Inr (x # xs)
         \<and> (lines x = None \<or> (\<exists>c. lines x = Some c \<and> found c = 0)))"
  have eq: "setStatusBarCoverage k sections textEditor sb
              = setCoverage (toString k) None None None None sb"
    using a
  proof (elim disjE exE conjE)
    assume "textEditor = None"
    then show ?thesis by (simp add: setStatusBarCoverage_def)
  next
    fix ed e
    assume "textEditor = Some ed" "findSectionsForEditor k ed sections = Inl e"
    then show ?thesis by (simp add: setStatusBarCoverage_def)
  next
    fix ed
    assume "textEditor = Some ed" "findSectionsForEditor k ed sections = Inr []"
    then show ?thesis
      by (simp add: setStatusBarCoverage_def coverage_None setCoverage_not_finite [of "Some NaN"])
  next
    fix ed x xs
    assume "textEditor = Some ed" "findSectionsForEditor k ed sections = Inr (x # xs)"
      "lines x = None"
    then show ?thesis
      by (simp add: setStatusBarCoverage_def coverage_no_lines setCoverage_not_finite [of "Some NaN"])
  next
    fix ed x xs c
    assume e: "textEditor = Some ed" "findSectionsForEditor k ed sections = Inr (x # xs)"
      and c: "lines x = Some c" "found c = 0"
    have "\<not> isFinite (Some (coverage (Some x)))"
      using c by (rule coverage_found_0)
    then have "setCoverage (toString k) (Some (coverage (Some x))) (Some (total_coverage sections))
                 (Some (b_coverage (Some x))) (Some (b_total_coverage sections)) sb
               = setCoverage (toString k) None None None None sb"
      by (rule setCoverage_not_finite)
    with e show ?thesis
      by (simp add: setStatusBarCoverage_def)
  qed
  then show ?thesis
    by (simp add: setCoverage_def Let_def)
qed

theorem no_coverage_cases_witness:
  "findSectionsForEditor toy_collaborators ''c.ts'' [(''a.ts'', section_5_of_10)] = Inr []
   \<and> lineCoverage (setStatusBarCoverage toy_collaborators [(''a.ts'', section_5_of_10)] (Some ''c.ts'')
        (toggle True new_StatusBarToggler)) = None
   \<and> statusText (setStatusBarCoverage toy_collaborators [(''a.ts'', section_5_of_10)] (Some ''c.ts'')
        (toggle True new_StatusBarToggler)) = ''$(circle-large-outline) No Cov''"
proof -
  have f: "findSectionsForEditor toy_collaborators ''c.ts'' [(''a.ts'', section_5_of_10)] = Inr []"
    by (simp add: toy_collaborators_def)
  show ?thesis
    using f no_coverage_cases [where textEditor = "Some ''c.ts''" and k = toy_collaborators
        and sections = "[(''a.ts'', section_5_of_10)]" and sb = "toggle True new_StatusBarToggler"]
    by (simp add: setCoverage_def toggle_def update_def new_StatusBarToggler_def Let_def
        getStatusBarText_def idleIcon_def coverageText_def)
qed

text \<open>
  Claim C3, as stated, at a cache whose second section has no line data, with the
  editor on the file of the first: the aggregate is \<^verbatim>\<open>NaN\<close>, and the status bar shows the
  percentage of the file, not "no coverage".
\<close>

theorem section_without_lines_elsewhere:
  "total_coverage [(''a.ts'', section_5_of_10), (''b.ts'', section_without_lines)] = NaN
   \<and> lineCoverage (setStatusBarCoverage toy_collaborators
        [(''a.ts'', section_5_of_10), (''b.ts'', section_without_lines)] (Some ''a.ts'')
        new_StatusBarToggler) = Some ''50%''"
  by (simp add: setStatusBarCoverage_def coverage_5_of_10 b_coverage_5_of_10
      total_coverage_without_lines b_total_coverage_without_lines Number_toString_50
      setCoverage_def Let_def toy_collaborators_def)

section \<open>One refresh cycle\<close>

lemma appendLine_fields [simp]:
  "statusBar (appendLine l s) = statusBar s"
  "cache (appendLine l s) = cache s"
  "rendered (appendLine l s) = rendered s"
  "isCoverageDisplayed (appendLine l s) = isCoverageDisplayed s"
  "outputChannel (appendLine l s) = outputChannel s @ [l]"
  by (simp_all add: appendLine_def)

lemma updateServiceState_fields [simp]:
  "statusBar (updateServiceState st s) = statusBar s"
  "cache (updateServiceState st s) = cache s"
  "rendered (updateServiceState st s) = rendered s"
  "isCoverageDisplayed (updateServiceState st s) = isCoverageDisplayed s"
  "outputChannel (updateServiceState st s) = outputChannel s @ [StateLine st]"
  by (simp_all add: updateServiceState_def)

lemma setLoading_isLoading [simp]: "isLoading (setLoading (Some b) sb) = b"
  by (simp add: setLoading_def)

lemma statusBar_setLoading_fields [simp]:
  "statusBar (statusBar_setLoading b s) = setLoading (Some b) (statusBar s)"
  "cache (statusBar_setLoading b s) = cache s"
  "rendered (statusBar_setLoading b s) = rendered s"
  "isCoverageDisplayed (statusBar_setLoading b s) = isCoverageDisplayed s"
  "outputChannel (statusBar_setLoading b s) = outputChannel s"
  by (simp_all add: statusBar_setLoading_def)

lemma states_of_append: "states_of (xs @ ys) = states_of xs @ states_of ys"
  by (induction xs rule: states_of.induct) simp_all

lemma loadCache_fst:
  "fst (loadCache k fs1 fs2 s) =
     (case findCoverageFiles k fs1 of
        Inl e \<Rightarrow> Some e
      | Inr files \<Rightarrow>
          (case loadDataFiles k fs2 files of
             Inl e \<Rightarrow> Some e
           | Inr dataFiles \<Rightarrow>
               (case filesToSections k dataFiles of Inl e \<Rightarrow> Some e | Inr c \<Rightarrow> None)))"
  by (simp add: loadCache_def Let_def split: sum.splits)

lemma loadCache_fst_pipeline:
  "(fst (loadCache k fs1 fs2 s) = None) = (pipeline k fs1 fs2 \<noteq> None)"
  by (simp add: loadCache_fst pipeline_def split: sum.splits)

lemma loadCache_cache:
  "cache (snd (loadCache k fs1 fs2 s)) = (case pipeline k fs1 fs2 of None \<Rightarrow> cache s | Some c \<Rightarrow> c)"
  by (simp add: loadCache_def pipeline_def Let_def split: sum.splits)

lemma loadCache_frame:
  "statusBar (snd (loadCache k fs1 fs2 s)) = statusBar s"
  "rendered (snd (loadCache k fs1 fs2 s)) = rendered s"
  "isCoverageDisplayed (snd (loadCache k fs1 fs2 s)) = isCoverageDisplayed s"
  by (simp_all add: loadCache_def Let_def split: sum.splits)

lemma loadCache_output:
  "take (length (outputChannel s)) (outputChannel (snd (loadCache k fs1 fs2 s))) = outputChannel s"
  "states_of (drop (length (outputChannel s)) (outputChannel (snd (loadCache k fs1 fs2 s))))
     = (case pipeline k fs1 fs2 of None \<Rightarrow> [loading] | Some c \<Rightarrow> [loading, ready])"
  by (simp_all add: loadCache_def pipeline_def Let_def split: sum.splits)

lemma process_fst:
  "fst (process k win s) = renderCoverage k (cache s) (visibleTextEditors win)"
  by (simp add: process_def renderer_renderCoverage_def Let_def split: option.splits)

lemma process_frame:
  "cache (snd (process k win s)) = cache s"
  "isCoverageDisplayed (snd (process k win s)) = isCoverageDisplayed s"
  "rendered (snd (process k win s)) = rendered s @ [(cache s, visibleTextEditors win)]"
  by (simp_all add: process_def renderer_renderCoverage_def Let_def split: option.splits)

lemma process_output:
  "outputChannel (snd (process k win s))
     = outputChannel s @ (case renderCoverage k (cache s) (visibleTextEditors win) of
                            Some e \<Rightarrow> [StateLine rendering]
                          | None \<Rightarrow> [StateLine rendering, StateLine ready])"
  by (simp add: process_def renderer_renderCoverage_def Let_def split: option.splits)

lemma process_statusBar:
  "statusBar (snd (process k win s))
     = (case renderCoverage k (cache s) (visibleTextEditors win) of
          Some e \<Rightarrow> statusBar s
        | None \<Rightarrow> setStatusBarCoverage k (cache s) (activeTextEditor win) (statusBar s))"
  by (simp add: process_def renderer_renderCoverage_def Let_def split: option.splits)

lemma loadCacheAndProcess_fst:
  "fst (loadCacheAndProcess k fs1 fs2 win s) =
     (case fst (loadCache k fs1 fs2 (statusBar_setLoading True s)) of
        Some e \<Rightarrow> Some e
      | None \<Rightarrow> fst (process k win (snd (loadCache k fs1 fs2 (statusBar_setLoading True s)))))"
  by (simp add: loadCacheAndProcess_def Let_def case_prod_beta split: option.splits)

lemma loadCacheAndProcess_snd:
  "snd (loadCacheAndProcess k fs1 fs2 win s) =
     statusBar_setLoading False
       (case fst (loadCache k fs1 fs2 (statusBar_setLoading True s)) of
          Some e \<Rightarrow> snd (loadCache k fs1 fs2 (statusBar_setLoading True s))
        | None \<Rightarrow> snd (process k win (snd (loadCache k fs1 fs2 (statusBar_setLoading True s)))))"
  by (simp add: loadCacheAndProcess_def Let_def case_prod_beta split: option.splits)

lemma loadCacheAndProcess_isLoading:
  "\<not> isLoading (statusBar (snd (loadCacheAndProcess k fs1 fs2 win s)))"
  by (simp add: loadCacheAndProcess_snd)

lemma loadCacheAndProcess_displayed:
  "isCoverageDisplayed (snd (loadCacheAndProcess k fs1 fs2 win s)) = isCoverageDisplayed s"
  by (simp add: loadCacheAndProcess_snd loadCache_frame process_frame split: option.splits)

lemma loadCacheAndProcess_states:
  "states_of (drop (length (outputChannel s)) (outputChannel (snd (loadCacheAndProcess k fs1 fs2 win s))))
     = (case pipeline k fs1 fs2 of
          None \<Rightarrow> [loading]
        | Some c \<Rightarrow>
            (case renderCoverage k c (visibleTextEditors win) of
               Some e \<Rightarrow> [loading, ready, rendering]
             | None \<Rightarrow> [loading, ready, rendering, ready]))"
proof -
  let ?s1 = "statusBar_setLoading True s"
  let ?l = "loadCache k fs1 fs2 ?s1"
  have len: "length (outputChannel ?s1) = length (outputChannel s)"
    by simp
  have pre: "outputChannel (snd ?l) = outputChannel s @ drop (length (outputChannel s)) (outputChannel (snd ?l))"
    using loadCache_output(1) [of ?s1 k fs1 fs2] append_take_drop_id [of "length (outputChannel s)" "outputChannel (snd ?l)"]
    by simp
  have st: "states_of (drop (length (outputChannel s)) (outputChannel (snd ?l)))
              = (case pipeline k fs1 fs2 of None \<Rightarrow> [loading] | Some c \<Rightarrow> [loading, ready])"
    using loadCache_output(2) [of ?s1 k fs1 fs2] by simp
  show ?thesis
  proof (cases "pipeline k fs1 fs2")
    case None
    then have "fst ?l \<noteq> None"
      using loadCache_fst_pipeline [of k fs1 fs2 ?s1] by simp
    then show ?thesis
      using None st by (auto simp: loadCacheAndProcess_snd)
  next
    case (Some c)
    then have ok: "fst ?l = None"
      using loadCache_fst_pipeline [of k fs1 fs2 ?s1] by simp
    have c: "cache (snd ?l) = c"
      using Some by (simp add: loadCache_cache)
    have "outputChannel (snd (loadCacheAndProcess k fs1 fs2 win s))
            = outputChannel s @ drop (length (outputChannel s)) (outputChannel (snd ?l))
                @ (case renderCoverage k c (visibleTextEditors win) of
                     Some e \<Rightarrow> [StateLine rendering]
                   | None \<Rightarrow> [StateLine rendering, StateLine ready])"
      using pre by (simp add: loadCacheAndProcess_snd ok process_output c)
    then show ?thesis
      using Some st by (simp add: states_of_append split: option.splits)
  qed
qed

lemma states_of_set: "(StateLine st \<in> set ls) = (st \<in> set (states_of ls))"
  by (induction ls rule: states_of.induct) auto

lemma loadCacheAndProcess_output_prefix:
  "take (length (outputChannel s)) (outputChannel (snd (loadCacheAndProcess k fs1 fs2 win s)))
     = outputChannel s"
proof -
  let ?s1 = "statusBar_setLoading True s"
  let ?l = "loadCache k fs1 fs2 ?s1"
  have pre: "outputChannel (snd ?l) = outputChannel s @ drop (length (outputChannel s)) (outputChannel (snd ?l))"
    using loadCache_output(1) [of ?s1 k fs1 fs2]
      append_take_drop_id [of "length (outputChannel s)" "outputChannel (snd ?l)"]
    by simp
  show ?thesis
    by (cases "fst ?l") (simp_all add: loadCacheAndProcess_snd process_output, (subst pre, simp)+)
qed

lemma loadCacheAndProcess_fst_steps:
  "fst (loadCacheAndProcess k fs1 fs2 win s) =
     (case findCoverageFiles k fs1 of
        Inl e \<Rightarrow> Some e
      | Inr files \<Rightarrow>
          (case loadDataFiles k fs2 files of
             Inl e \<Rightarrow> Some e
           | Inr dataFiles \<Rightarrow>
               (case filesToSections k dataFiles of
                  Inl e \<Rightarrow> Some e
                | Inr dataCoverage \<Rightarrow> renderCoverage k dataCoverage (visibleTextEditors win))))"
  by (simp add: loadCacheAndProcess_fst loadCache_fst process_fst loadCache_cache pipeline_def
      split: sum.splits)

text \<open>
  Claim C8, as the code has it. A refresh cycle writes its states after the lines the
  channel already holds, and they are: LOADING alone when the discovery, the read or the
  parse fails; LOADING, READY, RENDERING when the renderer throws; and LOADING, READY,
  RENDERING, READY when the cycle completes. \<^verbatim>\<open>loadCache\<close> writes READY once the cache is
  assigned, before \<^verbatim>\<open>loadCacheAndProcess\<close> writes RENDERING. ERROR is never written.
\<close>

theorem cycle_state_sequence:
  "take (length (outputChannel s)) (outputChannel (snd (loadCacheAndProcess k fs1 fs2 win s)))
     = outputChannel s
   \<and> states_of (drop (length (outputChannel s)) (outputChannel (snd (loadCacheAndProcess k fs1 fs2 win s))))
     = (case pipeline k fs1 fs2 of
          None \<Rightarrow> [loading]
        | Some c \<Rightarrow>
            (case renderCoverage k c (visibleTextEditors win) of
               Some e \<Rightarrow> [loading, ready, rendering]
             | None \<Rightarrow> [loading, ready, rendering, ready]))"
  by (simp add: loadCacheAndProcess_output_prefix loadCacheAndProcess_states)

lemma toy_pipeline: "pipeline toy_collaborators lcov_fs lcov_fs
   = Some [(''lcov.info'', \<lparr>lines = Some \<lparr>hit = 3, found = 40\<rparr>, branches = None\<rparr>)]"
  by (simp add: pipeline_def toy_collaborators_def lcov_fs_def)

text \<open>
  Claim C8, as stated, at a cycle that completes: READY stands between LOADING and
  RENDERING.
\<close>

theorem ready_between_loading_and_rendering:
  "fst (loadCacheAndProcess toy_collaborators lcov_fs lcov_fs editor_a
          (new_CoverageService new_StatusBarToggler)) = None
   \<and> states_of (drop 1 (outputChannel (snd (loadCacheAndProcess toy_collaborators lcov_fs lcov_fs editor_a
          (new_CoverageService new_StatusBarToggler)))))
     = [loading, ready, rendering, ready]"
proof -
  have r: "renderCoverage toy_collaborators c e = None" for c e
    by (simp add: toy_collaborators_def)
  have 1: "fst (loadCacheAndProcess toy_collaborators lcov_fs lcov_fs editor_a
          (new_CoverageService new_StatusBarToggler)) = None"
    by (simp add: loadCacheAndProcess_fst_steps toy_collaborators_def)
  have 2: "length (outputChannel (new_CoverageService new_StatusBarToggler :: string CoverageService)) = 1"
    by (simp add: new_CoverageService_def)
  show ?thesis
    using 1 loadCacheAndProcess_states [of "new_CoverageService new_StatusBarToggler"
        toy_collaborators lcov_fs lcov_fs editor_a]
    by (simp add: 2 toy_pipeline r)
qed

text \<open>
  Claim C4, as the code has it. A failure of the discovery, the read, the parse or the
  renderer ends the cycle: the exception of the first step that fails is the outcome of
  \<^verbatim>\<open>loadCacheAndProcess\<close>, which has no \<^verbatim>\<open>catch\<close>. The cycle writes no ERROR line, and
  it leaves the loading indicator cleared.
\<close>

theorem cycle_failure_propagates:
  "fst (loadCacheAndProcess k fs1 fs2 win s) =
     (case findCoverageFiles k fs1 of
        Inl e \<Rightarrow> Some e
      | Inr files \<Rightarrow>
          (case loadDataFiles k fs2 files of
             Inl e \<Rightarrow> Some e
           | Inr dataFiles \<Rightarrow>
               (case filesToSections k dataFiles of
                  Inl e \<Rightarrow> Some e
                | Inr dataCoverage \<Rightarrow> renderCoverage k dataCoverage (visibleTextEditors win))))
   \<and> StateLine error \<notin> set (drop (length (outputChannel s))
         (outputChannel (snd (loadCacheAndProcess k fs1 fs2 win s))))
   \<and> \<not> isLoading (statusBar (snd (loadCacheAndProcess k fs1 fs2 win s)))"
  by (simp add: loadCacheAndProcess_fst_steps loadCacheAndProcess_isLoading states_of_set
      loadCacheAndProcess_states split: option.splits)

text \<open>
  Claim C4, as stated, at a cycle whose discovery fails: the exception is the outcome,
  and the last state the channel names is LOADING.
\<close>

theorem failed_discovery_logs_no_error:
  "fst (loadCacheAndProcess failing_discovery lcov_fs lcov_fs editor_a
          (new_CoverageService new_StatusBarToggler)) = Some (Thrown ''EACCES'')
   \<and> outputChannel (snd (loadCacheAndProcess failing_discovery lcov_fs lcov_fs editor_a
          (new_CoverageService new_StatusBarToggler)))
     = [StateLine initializing, StateLine loading]"
  by (simp add: loadCacheAndProcess_fst_steps loadCacheAndProcess_snd loadCache_def
      failing_discovery_def new_CoverageService_def)

section \<open>The loading indicator, the editor events and the displayed flag\<close>

lemma handleEditorEvents_snd:
  "snd (handleEditorEvents k win s) =
     statusBar_setLoading False
       (case renderCoverage k (cache s) (visibleTextEditors win) of
          Some e \<Rightarrow> (statusBar_setLoading True (updateServiceState rendering s))
                      \<lparr>rendered := rendered s @ [(cache s, visibleTextEditors win)]\<rparr>
        | None \<Rightarrow>
            updateServiceState ready
              ((statusBar_setLoading True (updateServiceState rendering s))
                 \<lparr>rendered := rendered s @ [(cache s, visibleTextEditors win)],
                  statusBar := setStatusBarCoverage k (cache s) (activeTextEditor win)
                                 (setLoading (Some True) (statusBar s))\<rparr>))"
  by (simp add: handleEditorEvents_def renderer_renderCoverage_def Let_def split: option.splits)

lemma handleEditorEvents_fst:
  "fst (handleEditorEvents k win s) = renderCoverage k (cache s) (visibleTextEditors win)"
  by (simp add: handleEditorEvents_def renderer_renderCoverage_def Let_def split: option.splits)

lemma removeCoverageForCurrentEditor_snd:
  "snd (removeCoverageForCurrentEditor k win s) =
     (statusBar_setLoading False
        ((statusBar_setLoading True s)\<lparr>rendered := rendered s @ [([], visibleTextEditors win)]\<rparr>))
     \<lparr>isCoverageDisplayed := False\<rparr>"
  by (simp add: removeCoverageForCurrentEditor_def renderer_renderCoverage_def)

lemma resume_ends_cleared:
  "\<forall>r. pc t \<noteq> Ended r \<Longrightarrow> pc (snd (resume k fs win s t)) = Ended r' \<Longrightarrow>
   \<not> isLoading (statusBar (fst (resume k fs win s t)))"
  by (cases "pc t") (auto simp: resume_def Let_def case_prod_beta split: sum.splits option.splits)

text \<open>
  Claim C5. A notification runs \<^verbatim>\<open>loadCacheAndProcess\<close> up to its first \<^verbatim>\<open>await\<close>, and
  there the loading indicator is active; whenever a piece of a cycle ends the cycle,
  normally or with an exception, the indicator is cleared. Run to its end,
  \<^verbatim>\<open>loadCacheAndProcess\<close> leaves the indicator cleared whatever its outcome, and so do
  \<^verbatim>\<open>handleEditorEvents\<close> and \<^verbatim>\<open>removeCoverageForCurrentEditor\<close>.
\<close>

theorem loading_indicator:
  "isLoading (statusBar (fst (step k Trigger (s, ts))))
   \<and> (\<exists>t. snd (step k Trigger (s, ts)) = ts @ [t] \<and> pc t = AtFind)
   \<and> (i < length ts \<and> (\<forall>r. pc (ts ! i) \<noteq> Ended r)
        \<and> pc (snd (step k (Resume i fs win) (s, ts)) ! i) = Ended r'
      \<longrightarrow> \<not> isLoading (statusBar (fst (step k (Resume i fs win) (s, ts)))))
   \<and> \<not> isLoading (statusBar (snd (loadCacheAndProcess k fs1 fs2 win s)))
   \<and> \<not> isLoading (statusBar (snd (handleEditorEvents k win s)))
   \<and> \<not> isLoading (statusBar (snd (removeCoverageForCurrentEditor k win s)))"
proof -
  have "\<not> isLoading (statusBar (fst (step k (Resume i fs win) (s, ts))))"
    if "i < length ts" "\<forall>r. pc (ts ! i) \<noteq> Ended r"
      "pc (snd (step k (Resume i fs win) (s, ts)) ! i) = Ended r'"
    using that resume_ends_cleared [of "ts ! i" k fs win s r']
    by (simp add: case_prod_beta)
  then show ?thesis
    by (simp add: start_def loadCacheAndProcess_isLoading handleEditorEvents_snd
        removeCoverageForCurrentEditor_snd split: option.splits)
qed

lemma after_failed_discovery_tasks:
  "snd after_failed_discovery
     = [\<lparr>pc = AtReturn (Some (Thrown ''EACCES'')), fs_find = None, fs_load = None, produced = None\<rparr>]"
  by (simp add: after_failed_discovery_def run_def start_def resume_def failing_discovery_def)

lemma after_failed_discovery_loading:
  "isLoading (statusBar (fst after_failed_discovery))"
  by (simp add: after_failed_discovery_def run_def start_def resume_def failing_discovery_def
      case_prod_beta)

theorem loading_indicator_witness:
  "isLoading (statusBar (fst after_failed_discovery))
   \<and> (0 :: nat) < length (snd after_failed_discovery)
   \<and> (\<forall>r. pc (snd after_failed_discovery ! 0) \<noteq> Ended r)
   \<and> pc (snd (step failing_discovery (Resume 0 lcov_fs no_editor)
               (fst after_failed_discovery, snd after_failed_discovery)) ! 0)
       = Ended (Some (Thrown ''EACCES''))
   \<and> \<not> isLoading (statusBar (fst (step failing_discovery (Resume 0 lcov_fs no_editor)
               (fst after_failed_discovery, snd after_failed_discovery))))"
proof -
  have e: "pc (snd (step failing_discovery (Resume 0 lcov_fs no_editor)
               (fst after_failed_discovery, snd after_failed_discovery)) ! 0)
       = Ended (Some (Thrown ''EACCES''))"
    by (simp add: after_failed_discovery_tasks resume_def case_prod_beta)
  show ?thesis
    using e after_failed_discovery_loading
      loading_indicator [where i = 0 and ts = "snd after_failed_discovery"
        and k = failing_discovery and fs = lcov_fs and win = no_editor
        and s = "fst after_failed_discovery" and r' = "Some (Thrown ''EACCES'')"]
    by (simp add: after_failed_discovery_tasks)
qed

text \<open>
  Claim C9. The handler of an editor change leaves the cache as it is, does not depend
  on the files loader or the parser, calls the renderer once with the cache it found,
  writes RENDERING (and READY when the renderer returns), and sets the status bar from
  that same cache.
\<close>

theorem handleEditorEvents_frame:
  "cache (snd (handleEditorEvents k win s)) = cache s
   \<and> rendered (snd (handleEditorEvents k win s)) = rendered s @ [(cache s, visibleTextEditors win)]
   \<and> handleEditorEvents (k\<lparr>findCoverageFiles := f, loadDataFiles := g, filesToSections := h\<rparr>) win s
       = handleEditorEvents k win s
   \<and> outputChannel (snd (handleEditorEvents k win s))
       = outputChannel s @ (case renderCoverage k (cache s) (visibleTextEditors win) of
                              Some e \<Rightarrow> [StateLine rendering]
                            | None \<Rightarrow> [StateLine rendering, StateLine ready])
   \<and> statusBar (snd (handleEditorEvents k win s))
       = setLoading (Some False)
           (case renderCoverage k (cache s) (visibleTextEditors win) of
              Some e \<Rightarrow> setLoading (Some True) (statusBar s)
            | None \<Rightarrow> setStatusBarCoverage k (cache s) (activeTextEditor win)
                        (setLoading (Some True) (statusBar s)))"
proof -
  let ?k = "k\<lparr>findCoverageFiles := f, loadDataFiles := g, filesToSections := h\<rparr>"
  have sel: "toString ?k = toString k" "findSectionsForEditor ?k = findSectionsForEditor k"
    by simp_all
  have sb: "setStatusBarCoverage ?k c ed b = setStatusBarCoverage k c ed b" for c ed b
    unfolding setStatusBarCoverage_def sel by (rule refl)
  have "fst (handleEditorEvents ?k win s) = fst (handleEditorEvents k win s)"
    by (simp add: handleEditorEvents_fst)
  moreover have "snd (handleEditorEvents ?k win s) = snd (handleEditorEvents k win s)"
    by (simp add: handleEditorEvents_snd sb split: option.splits)
  ultimately have indep: "handleEditorEvents ?k win s = handleEditorEvents k win s"
    by (rule prod_eqI)
  have rest: "cache (snd (handleEditorEvents k win s)) = cache s"
    "rendered (snd (handleEditorEvents k win s)) = rendered s @ [(cache s, visibleTextEditors win)]"
    "outputChannel (snd (handleEditorEvents k win s))
       = outputChannel s @ (case renderCoverage k (cache s) (visibleTextEditors win) of
                              Some e \<Rightarrow> [StateLine rendering]
                            | None \<Rightarrow> [StateLine rendering, StateLine ready])"
    "statusBar (snd (handleEditorEvents k win s))
       = setLoading (Some False)
           (case renderCoverage k (cache s) (visibleTextEditors win) of
              Some e \<Rightarrow> setLoading (Some True) (statusBar s)
            | None \<Rightarrow> setStatusBarCoverage k (cache s) (activeTextEditor win)
                        (setLoading (Some True) (statusBar s)))"
    by (simp_all add: handleEditorEvents_snd split: option.splits)
  show ?thesis
    using indep rest by simp
qed

lemma displayForFile_fst:
  "fst (displayForFile k fs1 fs2 win s) = fst (loadCacheAndProcess k fs1 fs2 win s)"
  by (simp add: displayForFile_def case_prod_beta split: option.splits)

lemma displayForFile_snd:
  "snd (displayForFile k fs1 fs2 win s) =
     (case fst (loadCacheAndProcess k fs1 fs2 win s) of
        Some e \<Rightarrow> snd (loadCacheAndProcess k fs1 fs2 win s)
      | None \<Rightarrow> (snd (loadCacheAndProcess k fs1 fs2 win s))\<lparr>isCoverageDisplayed := True\<rparr>)"
  by (simp add: displayForFile_def case_prod_beta split: option.splits)

text \<open>
  Claim C10. \<^verbatim>\<open>displayForFile\<close> has the outcome of the refresh cycle; the displayed flag
  is true after a cycle that returns and keeps its value after one that throws. After a
  failed display from the state "not displayed", \<^verbatim>\<open>toggleCoverage\<close> is another
  \<^verbatim>\<open>displayForFile\<close>.
\<close>

theorem displayForFile_flag:
  "fst (displayForFile k fs1 fs2 win s) = fst (loadCacheAndProcess k fs1 fs2 win s)
   \<and> isCoverageDisplayed (snd (displayForFile k fs1 fs2 win s))
       = (case fst (loadCacheAndProcess k fs1 fs2 win s) of
            None \<Rightarrow> True
          | Some e \<Rightarrow> isCoverageDisplayed s)
   \<and> (fst (displayForFile k fs1 fs2 win s) \<noteq> None \<and> \<not> isCoverageDisplayed s \<longrightarrow>
        toggleCoverage k fs3 fs4 win' (snd (displayForFile k fs1 fs2 win s))
          = displayForFile k fs3 fs4 win' (snd (displayForFile k fs1 fs2 win s)))"
  by (auto simp: displayForFile_fst displayForFile_snd loadCacheAndProcess_displayed
      toggleCoverage_def split: option.splits)

theorem displayForFile_flag_witness:
  "fst (displayForFile failing_discovery lcov_fs lcov_fs editor_a
          (new_CoverageService new_StatusBarToggler)) \<noteq> None
   \<and> \<not> isCoverageDisplayed (new_CoverageService new_StatusBarToggler :: string CoverageService)
   \<and> \<not> isCoverageDisplayed (snd (displayForFile failing_discovery lcov_fs lcov_fs editor_a
          (new_CoverageService new_StatusBarToggler)))
   \<and> toggleCoverage failing_discovery lcov_fs lcov_fs editor_a
         (snd (displayForFile failing_discovery lcov_fs lcov_fs editor_a
                 (new_CoverageService new_StatusBarToggler)))
       = displayForFile failing_discovery lcov_fs lcov_fs editor_a
           (snd (displayForFile failing_discovery lcov_fs lcov_fs editor_a
                   (new_CoverageService new_StatusBarToggler)))"
proof -
  have f: "fst (displayForFile failing_discovery lcov_fs lcov_fs editor_a
          (new_CoverageService new_StatusBarToggler)) = Some (Thrown ''EACCES'')"
    by (simp add: displayForFile_fst loadCacheAndProcess_fst_steps failing_discovery_def)
  have n: "\<not> isCoverageDisplayed (new_CoverageService new_StatusBarToggler :: string CoverageService)"
    by (simp add: new_CoverageService_def)
  show ?thesis
    using f n
      displayForFile_flag [where k = failing_discovery and ?fs1.0 = lcov_fs and ?fs2.0 = lcov_fs
        and win = editor_a and s = "new_CoverageService new_StatusBarToggler"
        and ?fs3.0 = lcov_fs and ?fs4.0 = lcov_fs and win' = editor_a]
    by simp
qed

section \<open>Cycles that overlap\<close>

text \<open>
  The pieces of one cycle, run with nothing in between, are \<^verbatim>\<open>loadCacheAndProcess\<close> run
  to its end: the two descriptions of a cycle agree.
\<close>

lemma run_one_cycle:
  "fst (run k [Trigger, Resume 0 fs1 w1, Resume 0 fs2 w2, Resume 0 fs3 w3, Resume 0 fs4 win] (s, []))
     = snd (loadCacheAndProcess k fs1 fs2 win s)
   \<and> map pc (snd (run k [Trigger, Resume 0 fs1 w1, Resume 0 fs2 w2, Resume 0 fs3 w3, Resume 0 fs4 win] (s, [])))
     = [Ended (fst (loadCacheAndProcess k fs1 fs2 win s))]"
proof (cases "findCoverageFiles k fs1")
  case (Inl e)
  then show ?thesis
    by (simp add: run_def start_def resume_def loadCacheAndProcess_def loadCache_def Let_def)
next
  case f: (Inr files)
  show ?thesis
  proof (cases "loadDataFiles k fs2 files")
    case (Inl e)
    with f show ?thesis
      by (simp add: run_def start_def resume_def loadCacheAndProcess_def loadCache_def Let_def)
  next
    case d: (Inr dataFiles)
    show ?thesis
    proof (cases "filesToSections k dataFiles")
      case (Inl e)
      with f d show ?thesis
        by (simp add: run_def start_def resume_def loadCacheAndProcess_def loadCache_def Let_def)
    next
      case (Inr dataCoverage)
      with f d show ?thesis
        by (simp add: run_def start_def resume_def loadCacheAndProcess_def loadCache_def Let_def
            case_prod_beta)
    qed
  qed
qed

lemma start_task_inv: "task_inv k (snd (start s))"
  by (simp add: task_inv_def start_def)

lemma start_cache: "cache (fst (start s :: 'e CoverageService \<times> 'fs task)) = cache s"
  by (simp add: start_def)

lemma start_produced: "produced (snd (start s)) = None"
  by (simp add: start_def)

lemma resume_task_inv:
  assumes "task_inv k t"
  shows "task_inv k (snd (resume k fs win s t))"
proof (cases "pc t")
  case AtFind
  with assms show ?thesis
    by (auto simp: task_inv_def resume_def split: sum.splits)
next
  case (AtLoad files)
  with assms show ?thesis
    by (auto simp: task_inv_def resume_def split: sum.splits)
next
  case (AtParse d)
  show ?thesis
  proof (cases "filesToSections k d")
    case (Inl e)
    with assms AtParse show ?thesis
      by (simp add: task_inv_def resume_def)
  next
    case (Inr c)
    from assms AtParse obtain a b files where
      "fs_find t = Some a" "fs_load t = Some b" "findCoverageFiles k a = Inr files"
      "loadDataFiles k b files = Inr d"
      by (auto simp: task_inv_def)
    moreover from this Inr have "pipeline k a b = Some c"
      by (simp add: pipeline_def)
    ultimately show ?thesis
      using AtParse Inr by (simp add: task_inv_def resume_def)
  qed
next
  case (AtReturn r)
  with assms show ?thesis
    by (auto simp: task_inv_def resume_def case_prod_beta process_fst split: option.splits)
next
  case (Ended r)
  with assms show ?thesis
    by (simp add: resume_def)
qed

lemma resume_cache:
  "(cache (fst (resume k fs win s t)) = cache s \<and> produced (snd (resume k fs win s t)) = produced t)
   \<or> produced (snd (resume k fs win s t)) = Some (cache (fst (resume k fs win s t)))"
  by (cases "pc t")
     (auto simp: resume_def case_prod_beta process_frame split: sum.splits option.splits)


lemma step_inv:
  fixes k :: "('e, 'fs) collaborators" and s :: "'e CoverageService" and ts :: "'fs task list"
  assumes inv: "\<forall>t \<in> set ts. task_inv k t"
    and c: "if \<forall>j < length ts. produced (ts ! j) = None
            then cache s = c0
            else \<exists>j < length ts. produced (ts ! j) = Some (cache s)"
  shows "(\<forall>t \<in> set (snd (step k ev (s, ts))). task_inv k t)
    \<and> (if \<forall>j < length (snd (step k ev (s, ts))). produced (snd (step k ev (s, ts)) ! j) = None
       then cache (fst (step k ev (s, ts))) = c0
       else \<exists>j < length (snd (step k ev (s, ts))).
              produced (snd (step k ev (s, ts)) ! j) = Some (cache (fst (step k ev (s, ts)))))"
proof (cases ev)
  case Trigger
  let ?t = "snd (start s) :: 'fs task"
  have st: "step k ev (s, ts) = (fst (start s :: 'e CoverageService \<times> 'fs task), ts @ [?t])"
    using Trigger by (simp add: case_prod_beta)
  have 1: "\<forall>t \<in> set (ts @ [?t]). task_inv k t"
    using inv start_task_inv [of k s] by simp
  have 2: "(\<forall>j < length (ts @ [?t]). produced ((ts @ [?t]) ! j) = None)
             = (\<forall>j < length ts. produced (ts ! j) = None)"
    by (auto simp: nth_append start_produced less_Suc_eq)
  have 3: "(\<exists>j < length (ts @ [?t]). produced ((ts @ [?t]) ! j) = Some x)
             = (\<exists>j < length ts. produced (ts ! j) = Some x)" for x
    by (auto simp: nth_append start_produced less_Suc_eq)
  have "cache (fst (start s :: 'e CoverageService \<times> 'fs task)) = cache s"
    by (rule start_cache)
  then have 4: "if \<forall>j < length (ts @ [?t]). produced ((ts @ [?t]) ! j) = None
             then cache (fst (start s :: 'e CoverageService \<times> 'fs task)) = c0
             else \<exists>j < length (ts @ [?t]). produced ((ts @ [?t]) ! j)
                      = Some (cache (fst (start s :: 'e CoverageService \<times> 'fs task)))"
    using c unfolding 2 3 by simp
  show ?thesis
    unfolding st fst_conv snd_conv using 1 4 by (rule conjI)
next
  case (Resume i fs win)
  show ?thesis
  proof (cases "i < length ts")
    case False
    then have "step k ev (s, ts) = (s, ts)"
      using Resume by simp
    then show ?thesis
      unfolding fst_conv snd_conv using inv c by simp
  next
    case True
    let ?r = "resume k fs win s (ts ! i)"
    have st: "step k ev (s, ts) = (fst ?r, ts[i := snd ?r])"
      using True Resume by (simp add: case_prod_beta)
    have ti: "task_inv k (snd ?r)"
      using inv True by (simp add: resume_task_inv)
    have 1: "\<forall>t \<in> set (ts[i := snd ?r]). task_inv k t"
      using inv ti set_update_subset_insert [of ts i "snd ?r"] by auto
    have 2: "if \<forall>j < length (ts[i := snd ?r]). produced (ts[i := snd ?r] ! j) = None
             then cache (fst ?r) = c0
             else \<exists>j < length (ts[i := snd ?r]). produced (ts[i := snd ?r] ! j) = Some (cache (fst ?r))"
      using resume_cache [of k fs win s "ts ! i"]
    proof
      assume same: "cache (fst ?r) = cache s \<and> produced (snd ?r) = produced (ts ! i)"
      then have p: "produced (ts[i := snd ?r] ! j) = produced (ts ! j)" if "j < length ts" for j
        using that by (cases "j = i") simp_all
      have a: "(\<forall>j < length ts. produced (ts[i := snd ?r] ! j) = None)
                 = (\<forall>j < length ts. produced (ts ! j) = None)"
        using p by auto
      have b: "(\<exists>j < length ts. produced (ts[i := snd ?r] ! j) = Some x)
                 = (\<exists>j < length ts. produced (ts ! j) = Some x)" for x
        using p by auto
      show ?thesis
        using c same by (simp add: a b)
    next
      assume new: "produced (snd ?r) = Some (cache (fst ?r))"
      then have "produced (ts[i := snd ?r] ! i) = Some (cache (fst ?r))"
        using True by simp
      with True show ?thesis by auto
    qed
    show ?thesis
      unfolding st fst_conv snd_conv using 1 2 by (rule conjI)
  qed
qed

lemma run_inv:
  assumes "\<forall>t \<in> set ts. task_inv k t"
    and "if \<forall>j < length ts. produced (ts ! j) = None
         then cache s = c0
         else \<exists>j < length ts. produced (ts ! j) = Some (cache s)"
  shows "(\<forall>t \<in> set (snd (run k evs (s, ts))). task_inv k t)
    \<and> (if \<forall>j < length (snd (run k evs (s, ts))). produced (snd (run k evs (s, ts)) ! j) = None
       then cache (fst (run k evs (s, ts))) = c0
       else \<exists>j < length (snd (run k evs (s, ts))).
              produced (snd (run k evs (s, ts)) ! j) = Some (cache (fst (run k evs (s, ts)))))"
  using assms
proof (induction evs arbitrary: s ts)
  case Nil
  then show ?case by (simp add: run_def)
next
  case (Cons ev evs)
  obtain s1 ts1 where st: "step k ev (s, ts) = (s1, ts1)"
    by (cases "step k ev (s, ts)")
  have a: "\<forall>t \<in> set ts1. task_inv k t"
    and b: "if \<forall>j < length ts1. produced (ts1 ! j) = None
       then cache s1 = c0
       else \<exists>j < length ts1. produced (ts1 ! j) = Some (cache s1)"
    using step_inv [OF Cons.prems, of ev] unfolding st fst_conv snd_conv by blast+
  have "run k (ev # evs) (s, ts) = run k evs (s1, ts1)"
    by (simp add: run_def st)
  then show ?case
    using Cons.IH [OF a b] by simp
qed

text \<open>
  Claim C1. Whatever notifications arrive and in whatever order the pieces of the
  cycles in flight run, the cache is at every point the cache before the burst, as long
  as no cycle has assigned it, and otherwise the mapping that one cycle has produced:
  the parse of the data that this cycle read from the files that this cycle discovered.
  Once a cycle has completed, the cache is such a mapping.
\<close>

theorem cache_is_one_snapshot:
  "(if \<exists>t \<in> set (snd (run k evs (s0, []))). produced t \<noteq> None
    then \<exists>t \<in> set (snd (run k evs (s0, []))).
           produced t = Some (cache (fst (run k evs (s0, []))))
           \<and> (\<exists>fs1 fs2. fs_find t = Some fs1 \<and> fs_load t = Some fs2
                \<and> pipeline k fs1 fs2 = Some (cache (fst (run k evs (s0, [])))))
    else cache (fst (run k evs (s0, []))) = cache s0)
   \<and> ((\<exists>t \<in> set (snd (run k evs (s0, []))). pc t = Ended None) \<longrightarrow>
        (\<exists>t \<in> set (snd (run k evs (s0, []))). produced t \<noteq> None))"
proof -
  let ?s = "fst (run k evs (s0, []))" and ?ts = "snd (run k evs (s0, []))"
  have inv: "\<forall>t \<in> set ?ts. task_inv k t"
    and c: "if \<forall>j < length ?ts. produced (?ts ! j) = None
            then cache ?s = cache s0
            else \<exists>j < length ?ts. produced (?ts ! j) = Some (cache ?s)"
    using run_inv [of "[]" k s0 "cache s0" evs] by simp_all
  have chain: "\<exists>fs1 fs2. fs_find t = Some fs1 \<and> fs_load t = Some fs2
                 \<and> pipeline k fs1 fs2 = Some x"
    if "t \<in> set ?ts" "produced t = Some x" for t x
    using inv that by (auto simp: task_inv_def)
  have ended: "produced t \<noteq> None" if "t \<in> set ?ts" "pc t = Ended None" for t
    using inv that by (auto simp: task_inv_def)
  show ?thesis
  proof (cases "\<forall>j < length ?ts. produced (?ts ! j) = None")
    case True
    then have none: "produced t = None" if "t \<in> set ?ts" for t
      using that by (metis in_set_conv_nth)
    have "cache ?s = cache s0"
      using c True by simp
    then show ?thesis
      using none ended by auto
  next
    case False
    with c have "\<exists>j < length ?ts. produced (?ts ! j) = Some (cache ?s)"
      by (simp only: if_False)
    then obtain j where j: "j < length ?ts" "produced (?ts ! j) = Some (cache ?s)"
      by blast
    then have m: "?ts ! j \<in> set ?ts"
      by simp
    have "\<exists>t \<in> set ?ts. produced t = Some (cache ?s)
           \<and> (\<exists>fs1 fs2. fs_find t = Some fs1 \<and> fs_load t = Some fs2
                \<and> pipeline k fs1 fs2 = Some (cache ?s))"
      using chain [OF m j(2)] m j(2) by blast
    moreover have "\<exists>t \<in> set ?ts. produced t \<noteq> None"
      using m j(2) by force
    ultimately show ?thesis
      by simp
  qed
qed

lemma burst_tasks:
  "snd (run toy_collaborators burst (new_CoverageService new_StatusBarToggler, []))
   = [\<lparr>pc = Ended None, fs_find = Some fs_old, fs_load = Some fs_old,
       produced = Some [(''lcov.info'', \<lparr>lines = Some \<lparr>hit = 1, found = 40\<rparr>, branches = None\<rparr>)]\<rparr>,
      \<lparr>pc = Ended None, fs_find = Some fs_new, fs_load = Some fs_new,
       produced = Some [(''lcov.info'', \<lparr>lines = Some \<lparr>hit = 2, found = 40\<rparr>, branches = None\<rparr>)]\<rparr>]"
  by (simp add: run_def burst_def start_def resume_def toy_collaborators_def fs_old_def fs_new_def
      process_fst case_prod_beta)

lemma burst_cache:
  "cache (fst (run toy_collaborators burst (new_CoverageService new_StatusBarToggler, [])))
   = [(''lcov.info'', \<lparr>lines = Some \<lparr>hit = 1, found = 40\<rparr>, branches = None\<rparr>)]"
  by (simp add: run_def burst_def start_def resume_def toy_collaborators_def fs_old_def fs_new_def
      process_fst process_frame case_prod_beta)


theorem cache_is_one_snapshot_witness:
  "(\<exists>t \<in> set (snd (run toy_collaborators burst (new_CoverageService new_StatusBarToggler, []))).
      pc t = Ended None)
   \<and> (\<exists>t \<in> set (snd (run toy_collaborators burst (new_CoverageService new_StatusBarToggler, []))).
      produced t \<noteq> None)
   \<and> cache (fst (run toy_collaborators burst (new_CoverageService new_StatusBarToggler, [])))
       = [(''lcov.info'', \<lparr>lines = Some \<lparr>hit = 1, found = 40\<rparr>, branches = None\<rparr>)]"
  using cache_is_one_snapshot [of toy_collaborators burst "new_CoverageService new_StatusBarToggler"]
  by (simp add: burst_tasks burst_cache)

end
